theory Spec2Isabelle
  imports Main "HOL-Library.AList"
begin

section \<open>Data model of \<open>app.py\<close>\<close>

text \<open>
  A websocket object is compared by identity (membership tests and \<open>list.remove\<close>
  use the object's own equality), so a connection is modelled by an identifier.
\<close>

type_synonym websocket = nat
type_synonym room_name = string

text \<open>The Python exceptions that the modelled code can raise or let through.\<close>

datatype error =
    WebSocketDisconnect
  | ValueError
  | AttributeError
  | TypeError
  | IndexError
  | KeyError string
  | JSONDecodeError
  | StopAsyncIteration
  | RuntimeError
  | ExternalError string

text \<open>
  \<open>self.connections\<close> is a \<open>defaultdict(dict)\<close>: a room's entry is either the
  empty dict that the default factory made (nothing ever stores a key in it) or the
  list of websockets that \<open>connect\<close> and \<open>_notify\<close> assign.
\<close>

datatype entry = EmptyDict | Members "websocket list"

fun entry_len :: "entry \<Rightarrow> nat" where
  "entry_len EmptyDict = 0"
| "entry_len (Members xs) = length xs"

fun entry_members :: "entry \<Rightarrow> websocket list" where
  "entry_members EmptyDict = []"
| "entry_members (Members xs) = xs"

text \<open>
  The asynchronous generator behind \<open>push\<close>: just created (not yet advanced to its
  first \<open>yield\<close>), suspended at the \<open>yield\<close>, or finished (after an exception
  left its body).
\<close>

datatype generator_state = Created | Suspended | Finished

record notifier =
  connections :: "room_name \<rightharpoonup> entry"
  generator :: generator_state

text \<open>Parsed JSON, as \<open>json.loads\<close> returns it; an object is a dict.\<close>

datatype json =
    JNull
  | JBool bool
  | JNum int
  | JStr string
  | JArr "json list"
  | JObj "(string \<times> json) list"

text \<open>
  What the code does to the outside: handshakes accepted, texts sent (or a send that
  raised), and calls of the message store's \<open>insert_message\<close>, in the order they
  happen.
\<close>

datatype event =
    Accepted websocket
  | Sent websocket string
  | SendFailed websocket string
  | InsertCalled json json json

text \<open>
  The environment of the notifier: which websockets raise on \<open>send_text\<close> and with
  which exception (a closed transport, a websocket that is not connected), which
  websockets have had their handshake (a websocket object
  leaves the state CONNECTING at its first \<open>accept\<close> and never returns to it), whose
  handshake fails in the transport, whether the message store raises, and the events
  so far.
\<close>

record world =
  send_error :: "websocket \<rightharpoonup> error"
  accepted :: "websocket set"
  accept_error :: "websocket \<rightharpoonup> error"
  insert_error :: "error option"
  trace :: "event list"

type_synonym state = "notifier \<times> world"

section \<open>The transport and the message store\<close>

text \<open>
  \<open>websocket.accept()\<close> sends the message \<open>websocket.accept\<close>. The websocket's
  \<open>send\<close> takes that message only in the state CONNECTING, which it leaves before
  the message goes to the transport; in every later state it raises RuntimeError. So
  only the first \<open>accept\<close> of a websocket can succeed.
\<close>

definition accept :: "websocket \<Rightarrow> world \<Rightarrow> (error + unit) \<times> world" where
  "accept ws w =
     (if ws \<in> accepted w then (Inl RuntimeError, w)
      else
        (case accept_error w ws of
           Some e \<Rightarrow> (Inl e, w\<lparr>accepted := insert ws (accepted w)\<rparr>)
         | None \<Rightarrow>
             (Inr (), w\<lparr>accepted := insert ws (accepted w), trace := trace w @ [Accepted ws]\<rparr>)))"

definition send_text :: "websocket \<Rightarrow> string \<Rightarrow> world \<Rightarrow> (error + unit) \<times> world" where
  "send_text ws message w =
     (case send_error w ws of
        Some e \<Rightarrow> (Inl e, w\<lparr>trace := trace w @ [SendFailed ws message]\<rparr>)
      | None \<Rightarrow> (Inr (), w\<lparr>trace := trace w @ [Sent ws message]\<rparr>))"

text \<open>
  \<open>insert_message\<close> lives in \<open>controllers.py\<close>; the session loop only calls it.
  The call is recorded with its arguments and raises when the store does.
\<close>

definition insert_message :: "json \<Rightarrow> json \<Rightarrow> json \<Rightarrow> world \<Rightarrow> (error + unit) \<times> world" where
  "insert_message m sender rn w =
     (let w' = w\<lparr>trace := trace w @ [InsertCalled m sender rn]\<rparr>
      in case insert_error w of Some e \<Rightarrow> (Inl e, w') | None \<Rightarrow> (Inr (), w'))"

section \<open>class Notifier\<close>

text \<open>\<open>Notifier()\<close>: no room has an entry, the generator is created but not started.\<close>

definition Notifier :: notifier where
  "Notifier = \<lparr>connections = Map.empty, generator = Created\<rparr>"

text \<open>
  \<open>self.connections[room_name]\<close> as an expression: a missing key is given the
  default factory's value, an empty dict, which is stored and returned.
\<close>

definition getitem :: "room_name \<Rightarrow> notifier \<Rightarrow> entry \<times> notifier" where
  "getitem r n =
     (case connections n r of
        Some e \<Rightarrow> (e, n)
      | None \<Rightarrow> (EmptyDict, n\<lparr>connections := (connections n)(r \<mapsto> EmptyDict)\<rparr>))"

text \<open>\<open>self.connections[room_name] = e\<close>.\<close>

definition setitem :: "room_name \<Rightarrow> entry \<Rightarrow> notifier \<Rightarrow> notifier" where
  "setitem r e n = n\<lparr>connections := (connections n)(r \<mapsto> e)\<rparr>"

text \<open>
  \<open>get_members\<close>: the lookup is wrapped in \<open>try\<close>/\<open>except Exception: return None\<close>,
  but a lookup in a defaultdict with a string key does not raise, so the result is
  always the entry (Python's \<open>None\<close> is the option \<open>None\<close>).
\<close>

definition get_members :: "room_name \<Rightarrow> notifier \<Rightarrow> entry option \<times> notifier" where
  "get_members r n = (let (e, n1) = getitem r n in (Some e, n1))"

text \<open>
  \<open>connect\<close>: accept the handshake; replace an empty entry (the empty dict, or an
  empty list) by a new empty list; append the websocket. There is no test whether the
  websocket is already in the list, but an exception of \<open>accept\<close> leaves
  \<open>connect\<close> before the registry is touched.
\<close>

definition connect :: "websocket \<Rightarrow> room_name \<Rightarrow> state \<Rightarrow> (error + unit) \<times> state" where
  "connect ws r s =
     (case accept ws (snd s) of
        (Inl e, w1) \<Rightarrow> (Inl e, (fst s, w1))
      | (Inr _, w1) \<Rightarrow>
          (let (e, n1) = getitem r (fst s);
               n2 = (if e = EmptyDict \<or> entry_len e = 0 then setitem r (Members []) n1 else n1);
               (e2, n3) = getitem r n2
           in case e2 of
                Members xs \<Rightarrow> (Inr (), (setitem r (Members (xs @ [ws])) n3, w1))
              | EmptyDict \<Rightarrow> (Inl AttributeError, (n3, w1))))"

text \<open>
  \<open>remove\<close>: \<open>self.connections[room_name].remove(websocket)\<close>. The lookup creates
  the empty dict for a room without an entry; a dict has no \<open>remove\<close>
  (AttributeError); \<open>list.remove\<close> deletes the first occurrence and raises
  ValueError when there is none.
\<close>

definition remove :: "websocket \<Rightarrow> room_name \<Rightarrow> notifier \<Rightarrow> (error + unit) \<times> notifier" where
  "remove ws r n =
     (let (e, n1) = getitem r n
      in case e of
           EmptyDict \<Rightarrow> (Inl AttributeError, n1)
         | Members xs \<Rightarrow>
             if ws \<in> set xs then (Inr (), setitem r (Members (remove1 ws xs)) n1)
             else (Inl ValueError, n1))"

text \<open>\<open>self.connections[room_name].pop()\<close>: the last element of the list is taken out.\<close>

definition pop :: "room_name \<Rightarrow> notifier \<Rightarrow> (error + websocket) \<times> notifier" where
  "pop r n =
     (let (e, n1) = getitem r n
      in case e of
           EmptyDict \<Rightarrow> (Inl TypeError, n1)
         | Members xs \<Rightarrow>
             if xs = [] then (Inl IndexError, n1)
             else (Inr (last xs), setitem r (Members (butlast xs)) n1))"

text \<open>
  The \<open>while\<close> loop of \<open>_notify\<close>, with the local list \<open>living_connections\<close> as
  an argument. An exception of \<open>send_text\<close> leaves the loop at once: the popped
  websocket is out of the list already and \<open>living_connections\<close> is dropped.
\<close>

function notify_loop :: "string \<Rightarrow> room_name \<Rightarrow> websocket list \<Rightarrow> state \<Rightarrow> (error + unit) \<times> state" where
  "notify_loop message r living s =
     (let (e, n1) = getitem r (fst s)
      in if entry_len e > 0 then
           (case pop r n1 of
              (Inl err, n2) \<Rightarrow> (Inl err, (n2, snd s))
            | (Inr ws, n2) \<Rightarrow>
                (case send_text ws message (snd s) of
                   (Inl err, w1) \<Rightarrow> (Inl err, (n2, w1))
                 | (Inr _, w1) \<Rightarrow> notify_loop message r (living @ [ws]) (n2, w1)))
         else (Inr (), (setitem r (Members living) n1, snd s)))"
  by pat_completeness auto
termination
  by (relation "measure (\<lambda>(message, r, living, s). entry_len (fst (getitem r (fst s))))")
    (auto simp: getitem_def pop_def setitem_def split: option.splits if_splits entry.splits)

declare notify_loop.simps [simp del]

definition notify :: "string \<Rightarrow> room_name \<Rightarrow> state \<Rightarrow> (error + unit) \<times> state" where
  "notify message r s = notify_loop message r [] s"

text \<open>
  \<open>self.generator.asend(arg)\<close> on \<open>get_notification_generator\<close>. A generator that
  was just created takes only \<open>None\<close> and runs to its first \<open>yield\<close>. A suspended
  one resumes with \<open>message = arg\<close>, reads \<open>message["message"]\<close> and
  \<open>message["room_name"]\<close>, awaits \<open>_notify\<close> and suspends again at the \<open>yield\<close>;
  an exception that leaves the body finishes the generator and reaches the caller of
  \<open>asend\<close> (a StopAsyncIteration as RuntimeError). A finished generator raises
  StopAsyncIteration.
\<close>

definition asend :: "(string \<times> room_name) option \<Rightarrow> state \<Rightarrow> (error + unit) \<times> state" where
  "asend arg s =
     (case generator (fst s) of
        Created \<Rightarrow>
          (case arg of
             Some _ \<Rightarrow> (Inl TypeError, s)
           | None \<Rightarrow> (Inr (), ((fst s)\<lparr>generator := Suspended\<rparr>, snd s)))
      | Finished \<Rightarrow> (Inl StopAsyncIteration, s)
      | Suspended \<Rightarrow>
          (case arg of
             None \<Rightarrow> (Inl TypeError, ((fst s)\<lparr>generator := Finished\<rparr>, snd s))
           | Some (msg, r) \<Rightarrow>
               (case notify msg r s of
                  (Inl e, s1) \<Rightarrow>
                    (Inl (if e = StopAsyncIteration then RuntimeError else e),
                     ((fst s1)\<lparr>generator := Finished\<rparr>, snd s1))
                | (Inr _, s1) \<Rightarrow> (Inr (), s1))))"

text \<open>\<open>push\<close>: build the message body and send it into the generator.\<close>

definition push :: "string \<Rightarrow> room_name \<Rightarrow> state \<Rightarrow> (error + unit) \<times> state" where
  "push msg r s = asend (Some (msg, r)) s"

text \<open>The line of \<open>startup_event\<close> that starts the generator.\<close>

definition startup_generator :: "state \<Rightarrow> (error + unit) \<times> state" where
  "startup_generator s = asend None s"

subsection \<open>A broadcast between its awaits\<close>

text \<open>
  \<open>_notify\<close> gives up control at every \<open>await websocket.send_text(message)\<close>, and
  code of other sessions runs before the send returns. What the suspended call keeps
  is its frame: the message, the room, \<open>living_connections\<close> and the websocket it
  popped.
\<close>

record frame =
  fr_message :: string
  fr_room :: room_name
  fr_living :: "websocket list"
  fr_websocket :: websocket

text \<open>A push that has started is suspended at an await, or has returned or raised.\<close>

datatype progress = Suspend frame | Return "error + unit"

text \<open>
  From the loop test to the next await: pop the last websocket and suspend in its
  \<open>send_text\<close>, or store \<open>living_connections\<close> and return to the \<open>yield\<close>.
\<close>

definition notify_head :: "string \<Rightarrow> room_name \<Rightarrow> websocket list \<Rightarrow> state \<Rightarrow> progress \<times> state" where
  "notify_head message r living s =
     (let (e, n1) = getitem r (fst s)
      in if entry_len e > 0 then
           (case pop r n1 of
              (Inl err, n2) \<Rightarrow>
                (Return (Inl (if err = StopAsyncIteration then RuntimeError else err)),
                 (n2\<lparr>generator := Finished\<rparr>, snd s))
            | (Inr ws, n2) \<Rightarrow>
                (Suspend \<lparr>fr_message = message, fr_room = r, fr_living = living,
                          fr_websocket = ws\<rparr>, (n2, snd s)))
         else (Return (Inr ()), (setitem r (Members living) n1, snd s)))"

text \<open>\<open>push\<close> up to the first await of \<open>_notify\<close>.\<close>

definition push_begin :: "string \<Rightarrow> room_name \<Rightarrow> state \<Rightarrow> progress \<times> state" where
  "push_begin msg r s =
     (case generator (fst s) of
        Created \<Rightarrow> (Return (Inl TypeError), s)
      | Finished \<Rightarrow> (Return (Inl StopAsyncIteration), s)
      | Suspended \<Rightarrow> notify_head msg r [] s)"

text \<open>
  The awaited \<open>send_text\<close> returns or raises, in the state that the other sessions
  have left meanwhile: an exception finishes the generator and reaches the caller of
  \<open>push\<close>; otherwise the websocket is appended to \<open>living_connections\<close> and the
  loop goes on to its next await.
\<close>

definition push_resume :: "frame \<Rightarrow> state \<Rightarrow> progress \<times> state" where
  "push_resume fr s =
     (case send_text (fr_websocket fr) (fr_message fr) (snd s) of
        (Inl err, w1) \<Rightarrow>
          (Return (Inl (if err = StopAsyncIteration then RuntimeError else err)),
           ((fst s)\<lparr>generator := Finished\<rparr>, w1))
      | (Inr _, w1) \<Rightarrow>
          notify_head (fr_message fr) (fr_room fr) (fr_living fr @ [fr_websocket fr]) (fst s, w1))"

text \<open>A started push run to its end with nothing else scheduled at its awaits.\<close>

function complete :: "progress \<times> state \<Rightarrow> (error + unit) \<times> state" where
  "complete (Return res, s) = (res, s)"
| "complete (Suspend fr, s) = complete (push_resume fr s)"
  by pat_completeness auto
termination
  by (relation "measure (\<lambda>(p, s). case p of Return res \<Rightarrow> 0
        | Suspend fr \<Rightarrow> Suc (entry_len (fst (getitem (fr_room fr) (fst s)))))")
     (auto simp: push_resume_def notify_head_def send_text_def getitem_def pop_def setitem_def
        split: option.splits if_splits entry.splits prod.splits sum.splits)

section \<open>The session: \<open>websocket_endpoint\<close>\<close>

text \<open>\<open>d[k] = v\<close> and \<open>d[k]\<close> on what \<open>json.loads\<close> returned.\<close>

fun json_setitem :: "json \<Rightarrow> string \<Rightarrow> json \<Rightarrow> error + json" where
  "json_setitem (JObj kvs) k v = Inr (JObj (AList.update k v kvs))"
| "json_setitem _ k v = Inl TypeError"

fun json_getitem :: "json \<Rightarrow> string \<Rightarrow> error + json" where
  "json_getitem (JObj kvs) k = (case map_of kvs k of None \<Rightarrow> Inl (KeyError k) | Some v \<Rightarrow> Inr v)"
| "json_getitem _ k = Inl TypeError"

text \<open>
  Lines 193 to 196: \<open>room_members\<close> is \<open>get_members(room_name)\<close> unless that is
  \<open>None\<close> (the test calls \<open>get_members\<close> once, the value is a second call), and a
  websocket that is not in it is connected again.
\<close>

definition rejoin_if_absent :: "websocket \<Rightarrow> room_name \<Rightarrow> state \<Rightarrow> (error + unit) \<times> state" where
  "rejoin_if_absent ws r s =
     (let (t, n1) = get_members r (fst s);
          (room_members, n2) =
             (if t \<noteq> None then
                (let (v, n2) = get_members r n1
                 in (case v of None \<Rightarrow> Inl TypeError | Some e \<Rightarrow> Inr (entry_members e), n2))
              else (Inr [], n1))
      in case room_members of
           Inl err \<Rightarrow> (Inl err, (n2, snd s))
         | Inr ms \<Rightarrow>
             if ws \<notin> set ms then connect ws r (n2, snd s)
             else (Inr (), (n2, snd s)))"

text \<open>
  Lines 188 to 198 of one iteration of the loop, for the received text \<open>data\<close>: parse
  it, set \<open>d["room_name"]\<close>, re-join if absent, then call \<open>insert_message\<close> with
  \<open>d["message"]\<close>, \<open>d["sender"]\<close> and \<open>d["room_name"]\<close>. The parser is a
  parameter: \<open>loads data = None\<close> stands for its JSONDecodeError.
\<close>

definition session_store :: "(string \<Rightarrow> json option) \<Rightarrow> websocket \<Rightarrow> room_name \<Rightarrow> string \<Rightarrow> state
    \<Rightarrow> (error + unit) \<times> state" where
  "session_store loads ws r data s =
     (case loads data of
        None \<Rightarrow> (Inl JSONDecodeError, s)
      | Some d0 \<Rightarrow>
          (case json_setitem d0 ''room_name'' (JStr r) of
             Inl err \<Rightarrow> (Inl err, s)
           | Inr d \<Rightarrow>
               (case rejoin_if_absent ws r s of
                  (Inl err, s1) \<Rightarrow> (Inl err, s1)
                | (Inr _, s1) \<Rightarrow>
                    (case json_getitem d ''message'' of
                       Inl err \<Rightarrow> (Inl err, s1)
                     | Inr m \<Rightarrow>
                         (case json_getitem d ''sender'' of
                            Inl err \<Rightarrow> (Inl err, s1)
                          | Inr sender \<Rightarrow>
                              (case json_getitem d ''room_name'' of
                                 Inl err \<Rightarrow> (Inl err, s1)
                               | Inr rn \<Rightarrow>
                                   (case insert_message m sender rn (snd s1) of
                                      (res, w1) \<Rightarrow> (res, (fst s1, w1)))))))))"

text \<open>
  One iteration after \<open>receive_text\<close> returned \<open>data\<close>: lines 188 to 198, then
  \<open>notifier.push(f"{data}", room_name)\<close>; the formatted string is \<open>data\<close> itself.
\<close>

definition session_iteration :: "(string \<Rightarrow> json option) \<Rightarrow> websocket \<Rightarrow> room_name \<Rightarrow> string \<Rightarrow> state
    \<Rightarrow> (error + unit) \<times> state" where
  "session_iteration loads ws r data s =
     (case session_store loads ws r data s of
        (Inl err, s1) \<Rightarrow> (Inl err, s1)
      | (Inr _, s1) \<Rightarrow> push data r s1)"

text \<open>
  What \<open>receive_text\<close> gives the loop: a text, or an exception (a disconnect is
  \<open>ReceiveRaises WebSocketDisconnect\<close>).
\<close>

datatype inbound = Text string | ReceiveRaises error

text \<open>
  How a run of the endpoint stands after the inbound events it was given: still
  waiting in \<open>receive_text\<close>, returned (after the disconnect handler), or left by an
  exception.
\<close>

datatype outcome = Receiving | Returned | Raised error

text \<open>
  An exception inside the \<open>try\<close>: \<open>except WebSocketDisconnect\<close> calls
  \<open>notifier.remove\<close> (whose own exception then leaves the endpoint); any other
  exception leaves the endpoint without the removal.
\<close>

definition on_exception :: "websocket \<Rightarrow> room_name \<Rightarrow> error \<Rightarrow> state \<Rightarrow> outcome \<times> state" where
  "on_exception ws r err s =
     (if err = WebSocketDisconnect then
        (case remove ws r (fst s) of
           (Inl err2, n1) \<Rightarrow> (Raised err2, (n1, snd s))
         | (Inr _, n1) \<Rightarrow> (Returned, (n1, snd s)))
      else (Raised err, s))"

fun session_loop :: "(string \<Rightarrow> json option) \<Rightarrow> websocket \<Rightarrow> room_name \<Rightarrow> inbound list \<Rightarrow> state
    \<Rightarrow> outcome \<times> state" where
  "session_loop loads ws r [] s = (Receiving, s)"
| "session_loop loads ws r (Text data # rest) s =
     (case session_iteration loads ws r data s of
        (Inl err, s1) \<Rightarrow> on_exception ws r err s1
      | (Inr _, s1) \<Rightarrow> session_loop loads ws r rest s1)"
| "session_loop loads ws r (ReceiveRaises err # rest) s = on_exception ws r err s"

text \<open>\<open>websocket_endpoint\<close>: \<open>connect\<close> stands before the \<open>try\<close>.\<close>

definition websocket_endpoint :: "(string \<Rightarrow> json option) \<Rightarrow> websocket \<Rightarrow> room_name \<Rightarrow> inbound list
    \<Rightarrow> state \<Rightarrow> outcome \<times> state" where
  "websocket_endpoint loads ws r inbound s =
     (case connect ws r s of
        (Inl err, s1) \<Rightarrow> (Raised err, s1)
      | (Inr _, s1) \<Rightarrow> session_loop loads ws r inbound s1)"

section \<open>Histories of operations\<close>

text \<open>
  The operations that sessions perform on the shared notifier, and changes of the
  environment between them (a transport breaks or recovers). A history is a list of
  them, run from left to right; an operation that raises keeps the state it left.
  Each operation of a history runs without a break; a \<open>Broadcast\<close> is a push during
  which no other session is scheduled. Schedules, below, also cut a broadcast at its
  awaits.
\<close>

datatype action =
    Join websocket room_name
  | Leave websocket room_name
  | Broadcast string room_name
  | Query room_name
  | SetSend websocket "error option"
  | SetAccept websocket "error option"

fun perform :: "action \<Rightarrow> state \<Rightarrow> state" where
  "perform (Join ws r) s = snd (connect ws r s)"
| "perform (Leave ws r) s = (snd (remove ws r (fst s)), snd s)"
| "perform (Broadcast msg r) s = snd (push msg r s)"
| "perform (Query r) s = (snd (get_members r (fst s)), snd s)"
| "perform (SetSend ws e) s = (fst s, (snd s)\<lparr>send_error := (send_error (snd s))(ws := e)\<rparr>)"
| "perform (SetAccept ws e) s = (fst s, (snd s)\<lparr>accept_error := (accept_error (snd s))(ws := e)\<rparr>)"

fun run :: "action list \<Rightarrow> state \<Rightarrow> state" where
  "run [] s = s"
| "run (a # as) s = run as (perform a s)"

text \<open>The members of a room as the registry holds them, without touching it.\<close>

definition members :: "notifier \<Rightarrow> room_name \<Rightarrow> websocket list" where
  "members n r = (case connections n r of None \<Rightarrow> [] | Some e \<Rightarrow> entry_members e)"

text \<open>
  Schedules: histories in which a broadcast may be cut at its awaits. \<open>Whole a\<close> is
  an operation run without a break (a \<open>push\<close> while another one is suspended finds
  the generator running and raises at once); \<open>Begin\<close> starts a push and runs it to
  its first await; \<open>Resume\<close> lets the awaited send finish and runs the push to its
  next await or its end; \<open>Disconnect ws r\<close> is the disconnect handler of the session
  of \<open>ws\<close>, as \<open>receive_text\<close> raises there. The first component of the state
  is the frame of the suspended push, if there is one.
\<close>

datatype step =
    Whole action
  | Begin string room_name
  | Resume
  | Disconnect websocket room_name

fun sched_step :: "step \<Rightarrow> frame option \<times> state \<Rightarrow> frame option \<times> state" where
  "sched_step (Whole (Broadcast msg r)) (f, s) =
     (case f of None \<Rightarrow> (None, perform (Broadcast msg r) s) | Some fr \<Rightarrow> (f, s))"
| "sched_step (Whole a) (f, s) = (f, perform a s)"
| "sched_step (Begin msg r) (f, s) =
     (case f of
        Some fr \<Rightarrow> (f, s)
      | None \<Rightarrow>
          (case push_begin msg r s of
             (Suspend fr, s1) \<Rightarrow> (Some fr, s1)
           | (Return res, s1) \<Rightarrow> (None, s1)))"
| "sched_step Resume (f, s) =
     (case f of
        None \<Rightarrow> (None, s)
      | Some fr \<Rightarrow>
          (case push_resume fr s of
             (Suspend fr1, s1) \<Rightarrow> (Some fr1, s1)
           | (Return res, s1) \<Rightarrow> (None, s1)))"
| "sched_step (Disconnect ws r) (f, s) = (f, snd (on_exception ws r WebSocketDisconnect s))"

fun run_schedule :: "step list \<Rightarrow> frame option \<times> state \<Rightarrow> frame option \<times> state" where
  "run_schedule [] c = c"
| "run_schedule (st # sts) c = run_schedule sts (sched_step st c)"

text \<open>
  The websockets that a suspended push holds outside the registry: its
  \<open>living_connections\<close> and the one it popped.
\<close>

fun in_flight :: "frame option \<Rightarrow> room_name \<Rightarrow> websocket list" where
  "in_flight None r = []"
| "in_flight (Some fr) r = (if fr_room fr = r then fr_living fr @ [fr_websocket fr] else [])"

text \<open>
  What every schedule keeps: the websockets of a room, in the registry or held by the
  suspended push, are pairwise different objects, and each has had its handshake.
\<close>

definition sound :: "frame option \<times> state \<Rightarrow> bool" where
  "sound c =
     (\<forall>r. distinct (in_flight (fst c) r @ members (fst (snd c)) r) \<and>
          set (in_flight (fst c) r @ members (fst (snd c)) r) \<subseteq> accepted (snd (snd c)))"

text \<open>The websockets to which the events delivered a text, in order.\<close>

fun deliveries :: "event list \<Rightarrow> (websocket \<times> string) list" where
  "deliveries [] = []"
| "deliveries (Sent ws m # es) = (ws, m) # deliveries es"
| "deliveries (_ # es) = deliveries es"

text \<open>The websockets to which a send was attempted, delivered or not.\<close>

fun attempts :: "event list \<Rightarrow> websocket list" where
  "attempts [] = []"
| "attempts (Sent ws m # es) = ws # attempts es"
| "attempts (SendFailed ws m # es) = ws # attempts es"
| "attempts (_ # es) = attempts es"

section \<open>Example states\<close>

text \<open>
  A world where nothing fails and nothing has been recorded yet, in which the
  websockets 1 to 9 (the members of the example rooms) have had their handshake and
  all others are new; the same with one broken transport; a started notifier with one
  room \<open>lobby\<close>; a started notifier with no room at all.
\<close>

definition calm :: world where
  "calm = \<lparr>send_error = Map.empty, accepted = {1, 2, 3, 4, 5, 6, 7, 8, 9},
            accept_error = Map.empty, insert_error = None, trace = []\<rparr>"

definition broken :: "websocket \<Rightarrow> world" where
  "broken ws = \<lparr>send_error = [ws \<mapsto> ExternalError ''closed''],
                accepted = {1, 2, 3, 4, 5, 6, 7, 8, 9}, accept_error = Map.empty,
                insert_error = None, trace = []\<rparr>"

definition lobby :: "websocket list \<Rightarrow> notifier" where
  "lobby xs = \<lparr>connections = [''lobby'' \<mapsto> Members xs], generator = Suspended\<rparr>"

definition started :: notifier where
  "started = \<lparr>connections = Map.empty, generator = Suspended\<rparr>"

text \<open>
  The text \<open>{"message": "hi", "sender": "A"}\<close> (\<open>dq\<close> is the double quote), and
  a parser that knows this one text.
\<close>

definition dq :: char where
  "dq = CHR 0x22"

definition hi_payload :: string where
  "hi_payload = ''{'' @ dq # ''message'' @ dq # '': '' @ dq # ''hi'' @ dq # '', '' @
                dq # ''sender'' @ dq # '': '' @ dq # ''A'' @ dq # ''}''"

definition example_loads :: "string \<Rightarrow> json option" where
  "example_loads d =
     (if d = hi_payload then Some (JObj [(''message'', JStr ''hi''), (''sender'', JStr ''A'')])
      else None)"

text \<open>
  Two histories from the started notifier. In \<open>race\<close> the websockets 10 and 11 join
  the lobby and a broadcast is cut at its awaits: it sends to 11, pops 10 and is
  suspended in the send to 10 when the session of 11 gets its disconnect (after which
  the transport of 11 is closed); then the send to 10 returns. In \<open>dropped\<close> three
  websockets join, the transport of 10 breaks, and a broadcast runs into it.
\<close>

definition race :: "step list" where
  "race = [Whole (Join 10 ''lobby''), Whole (Join 11 ''lobby''),
           Begin ''x'' ''lobby'', Resume,
           Disconnect 11 ''lobby'', Whole (SetSend 11 (Some (ExternalError ''closed''))),
           Resume]"

definition dropped :: "action list" where
  "dropped = [Join 10 ''lobby'', Join 11 ''lobby'', Join 12 ''lobby'',
              SetSend 10 (Some (ExternalError ''closed'')), Broadcast ''x'' ''lobby'']"

section \<open>Basic facts about the registry\<close>

lemma connections_setitem [simp]: "connections (setitem r e n) = (connections n)(r \<mapsto> e)"
  by (simp add: setitem_def)

lemma generator_setitem [simp]: "generator (setitem r e n) = generator n"
  by (simp add: setitem_def)

lemma setitem_setitem [simp]: "setitem r e (setitem r e' n) = setitem r e n"
  by (simp add: setitem_def)

lemma members_setitem:
  "members (setitem r e n) r' = (if r' = r then entry_members e else members n r')"
  by (simp add: members_def)

lemma members_snd_getitem [simp]: "members (snd (getitem r n)) r' = members n r'"
  by (simp add: members_def getitem_def split: option.splits)

lemma generator_snd_getitem [simp]: "generator (snd (getitem r n)) = generator n"
  by (simp add: getitem_def split: option.splits)

lemma entry_members_fst_getitem [simp]: "entry_members (fst (getitem r n)) = members n r"
  by (simp add: members_def getitem_def split: option.splits)

lemma setitem_snd_getitem [simp]: "setitem r e (snd (getitem r n)) = setitem r e n"
  by (simp add: setitem_def getitem_def split: option.splits)

lemma members_nonempty_entry:
  "members n r = xs \<Longrightarrow> xs \<noteq> [] \<Longrightarrow> connections n r = Some (Members xs)"
  by (cases "connections n r"; cases "the (connections n r)") (auto simp: members_def)

lemma deliveries_append [simp]: "deliveries (es @ fs) = deliveries es @ deliveries fs"
  by (induction es rule: deliveries.induct) simp_all

lemma attempts_append [simp]: "attempts (es @ fs) = attempts es @ attempts fs"
  by (induction es rule: attempts.induct) simp_all

lemma deliveries_map_Sent [simp]:
  "deliveries (map (\<lambda>ws. Sent ws msg) xs) = map (\<lambda>ws. (ws, msg)) xs"
  by (induction xs) simp_all

lemma attempts_map_Sent [simp]: "attempts (map (\<lambda>ws. Sent ws msg) xs) = xs"
  by (induction xs) simp_all

section \<open>The broadcast loop\<close>

text \<open>One turn of the loop: with an empty list it stores \<open>living_connections\<close>.\<close>

lemma notify_loop_empty:
  "notify_loop msg r living (n, w) = (Inr (), (setitem r (Members living) n, w))"
  if "members n r = []"
proof -
  have "entry_len (fst (getitem r n)) = 0"
    using that by (cases "fst (getitem r n)") (auto simp flip: entry_members_fst_getitem)
  then show ?thesis
    by (subst notify_loop.simps) (simp add: case_prod_beta)
qed

text \<open>With a last element \<open>x\<close> it pops \<open>x\<close> and sends to it.\<close>

lemma notify_loop_snoc:
  "members n r = xs @ [x] \<Longrightarrow>
   notify_loop msg r living (n, w) =
     (case send_text x msg w of
        (Inl err, w1) \<Rightarrow> (Inl err, (setitem r (Members xs) n, w1))
      | (Inr u, w1) \<Rightarrow> notify_loop msg r (living @ [x]) (setitem r (Members xs) n, w1))"
  by (subst notify_loop.simps, drule members_nonempty_entry)
     (auto simp: getitem_def pop_def split: prod.splits sum.splits)

text \<open>When no send raises, the loop drains the list from its end.\<close>

lemma notify_loop_all_ok:
  "members n r = xs \<Longrightarrow> \<forall>ws\<in>set xs. send_error w ws = None \<Longrightarrow>
   notify_loop msg r living (n, w) =
     (Inr (), (setitem r (Members (living @ rev xs)) n,
               w\<lparr>trace := trace w @ map (\<lambda>ws. Sent ws msg) (rev xs)\<rparr>))"
proof (induction xs arbitrary: n w living rule: rev_induct)
  case Nil
  then show ?case by (simp add: notify_loop_empty)
next
  case (snoc x xs)
  have m: "members (setitem r (Members xs) n) r = xs" by (simp add: members_setitem)
  from snoc.prems have ok: "send_error w x = None" by simp
  have oks: "\<forall>ws\<in>set xs. send_error (w\<lparr>trace := trace w @ [Sent x msg]\<rparr>) ws = None"
    using snoc.prems by simp
  show ?case
    using snoc.IH [OF m oks, of "living @ [x]"] ok
    by (simp add: notify_loop_snoc [OF snoc.prems(1)] send_text_def)
qed

text \<open>
  When a send raises, the loop stops at the failing websocket nearest the end of the
  list; the list keeps what stood before it.
\<close>

lemma notify_loop_first_failure:
  "members n r = pre @ x # post \<Longrightarrow> send_error w x = Some e \<Longrightarrow>
   \<forall>ws\<in>set post. send_error w ws = None \<Longrightarrow>
   notify_loop msg r living (n, w) =
     (Inl e, (setitem r (Members pre) n,
              w\<lparr>trace := trace w @ map (\<lambda>ws. Sent ws msg) (rev post) @ [SendFailed x msg]\<rparr>))"
proof (induction post arbitrary: n w living rule: rev_induct)
  case Nil
  then show ?case
    using notify_loop_snoc [of n r pre x msg living w] by (simp add: send_text_def)
next
  case (snoc y ys)
  have m0: "members n r = (pre @ x # ys) @ [y]" using snoc.prems(1) by simp
  have m: "members (setitem r (Members (pre @ x # ys)) n) r = pre @ x # ys"
    by (simp add: members_setitem)
  from snoc.prems have ok: "send_error w y = None" by simp
  have f: "send_error (w\<lparr>trace := trace w @ [Sent y msg]\<rparr>) x = Some e"
    using snoc.prems by simp
  have oks: "\<forall>ws\<in>set ys. send_error (w\<lparr>trace := trace w @ [Sent y msg]\<rparr>) ws = None"
    using snoc.prems by simp
  show ?case
    using snoc.IH [OF m f oks, of "living @ [y]"] ok
    by (simp add: notify_loop_snoc [OF m0] send_text_def)
qed

lemma last_failure_split:
  "(\<forall>x\<in>set xs. f x = None) \<or>
   (\<exists>pre x post e. xs = pre @ x # post \<and> f x = Some e \<and> (\<forall>y\<in>set post. f y = None))"
proof (cases "\<exists>x\<in>set xs. f x \<noteq> None")
  case True
  then obtain pre x post
    where "xs = pre @ x # post" "f x \<noteq> None" "\<forall>y\<in>set post. \<not> f y \<noteq> None"
    using split_list_last_prop [of xs "\<lambda>x. f x \<noteq> None"] by blast
  then have "xs = pre @ x # post \<and> f x = Some (the (f x)) \<and> (\<forall>y\<in>set post. f y = None)"
    by simp
  then show ?thesis by blast
next
  case False
  then show ?thesis by simp
qed

lemma notify_all_ok:
  "\<forall>ws\<in>set (members n r). send_error w ws = None \<Longrightarrow>
   notify msg r (n, w) =
     (Inr (), (setitem r (Members (rev (members n r))) n,
               w\<lparr>trace := trace w @ map (\<lambda>ws. Sent ws msg) (rev (members n r))\<rparr>))"
  using notify_loop_all_ok [of n r "members n r" w msg "[]"] by (simp add: notify_def)

lemma notify_first_failure:
  "members n r = pre @ x # post \<Longrightarrow> send_error w x = Some e \<Longrightarrow>
   \<forall>ws\<in>set post. send_error w ws = None \<Longrightarrow>
   notify msg r (n, w) =
     (Inl e, (setitem r (Members pre) n,
              w\<lparr>trace := trace w @ map (\<lambda>ws. Sent ws msg) (rev post) @ [SendFailed x msg]\<rparr>))"
  using notify_loop_first_failure [of n r pre x post w e msg "[]"] by (simp add: notify_def)

lemma push_suspended:
  "generator n = Suspended \<Longrightarrow>
   push msg r (n, w) =
     (case notify msg r (n, w) of
        (Inl e, s1) \<Rightarrow> (Inl (if e = StopAsyncIteration then RuntimeError else e),
                        ((fst s1)\<lparr>generator := Finished\<rparr>, snd s1))
      | (Inr u, s1) \<Rightarrow> (Inr (), s1))"
  by (simp add: push_def asend_def)

section \<open>Closed forms of the operations\<close>

lemma members_generator_update [simp]: "members (n\<lparr>generator := g\<rparr>) r = members n r"
  by (simp add: members_def)

lemma push_not_suspended:
  "generator n \<noteq> Suspended \<Longrightarrow>
   push msg r (n, w) = (Inl (if generator n = Created then TypeError else StopAsyncIteration), (n, w))"
  by (cases "generator n") (simp_all add: push_def asend_def)

lemma connect_eq:
  "connect ws r (n, w) =
     (if ws \<in> accepted w then (Inl RuntimeError, (n, w))
      else
        (case accept_error w ws of
           Some e \<Rightarrow> (Inl e, (n, w\<lparr>accepted := insert ws (accepted w)\<rparr>))
         | None \<Rightarrow>
             (Inr (), (setitem r (Members (members n r @ [ws])) n,
                       w\<lparr>accepted := insert ws (accepted w), trace := trace w @ [Accepted ws]\<rparr>))))"
proof (cases "ws \<in> accepted w")
  case True
  then show ?thesis by (simp add: connect_def accept_def)
next
  case fresh: False
  show ?thesis
  proof (cases "accept_error w ws")
    case None
    show ?thesis
    proof (cases "connections n r")
      case cn: None
      then show ?thesis using None fresh
        by (simp add: connect_def accept_def getitem_def setitem_def members_def)
    next
      case (Some en)
      then show ?thesis using None fresh
        by (cases en; cases "entry_members en")
           (simp_all add: connect_def accept_def getitem_def setitem_def members_def)
    qed
  next
    case (Some e)
    then show ?thesis using fresh by (simp add: connect_def accept_def)
  qed
qed

lemma remove_eq:
  "remove ws r n =
     (if ws \<in> set (members n r)
      then (Inr (), setitem r (Members (remove1 ws (members n r))) n)
      else (Inl (case connections n r of Some (Members xs) \<Rightarrow> ValueError | _ \<Rightarrow> AttributeError),
            snd (getitem r n)))"
proof (cases "connections n r")
  case None
  then show ?thesis by (simp add: remove_def getitem_def members_def)
next
  case (Some en)
  then show ?thesis
    by (cases en) (simp_all add: remove_def getitem_def members_def)
qed

lemma get_members_eq: "get_members r n = (Some (fst (getitem r n)), snd (getitem r n))"
  by (simp add: get_members_def case_prod_beta)

lemma rejoin_if_absent_eq:
  "rejoin_if_absent ws r (n, w) =
     (if ws \<in> set (members n r) then (Inr (), (snd (getitem r n), w))
      else connect ws r (snd (getitem r n), w))"
proof -
  have "getitem r (snd (getitem r n)) = (fst (getitem r n), snd (getitem r n))"
    by (simp add: getitem_def split: option.splits)
  then show ?thesis
    by (simp add: rejoin_if_absent_def get_members_eq)
qed

section \<open>What a broadcast can change\<close>

text \<open>
  Every run of \<open>_notify\<close> is one of two: no send raises, or the loop stops at the
  failing websocket nearest the end of the list.
\<close>

lemma notify_cases:
  obtains (all_ok) "\<forall>ws\<in>set (members n r). send_error w ws = None"
      "notify msg r (n, w) =
         (Inr (), (setitem r (Members (rev (members n r))) n,
                   w\<lparr>trace := trace w @ map (\<lambda>ws. Sent ws msg) (rev (members n r))\<rparr>))"
  | (failure) pre x post e where "members n r = pre @ x # post" "send_error w x = Some e"
      "notify msg r (n, w) =
         (Inl e, (setitem r (Members pre) n,
                  w\<lparr>trace := trace w @ map (\<lambda>ws. Sent ws msg) (rev post) @ [SendFailed x msg]\<rparr>))"
  using last_failure_split [of "members n r" "send_error w"]
    notify_all_ok [of n r w msg] notify_first_failure [of n r _ _ _ w _ msg]
  by blast

lemma notify_members:
  "set (members (fst (snd (notify msg r' (n, w)))) r) \<subseteq> set (members n r) \<and>
   (distinct (members n r) \<longrightarrow> distinct (members (fst (snd (notify msg r' (n, w)))) r)) \<and>
   generator (fst (snd (notify msg r' (n, w)))) = generator n"
  by (rule notify_cases [of n r' w msg]) (auto simp: members_setitem)

lemma notify_trace:
  "\<exists>evs. trace (snd (snd (notify msg r (n, w)))) = trace w @ evs \<and>
     set (attempts evs) \<subseteq> set (members n r) \<and>
     (\<forall>ev\<in>set evs. \<exists>x. ev = Sent x msg \<or> ev = SendFailed x msg)"
proof (rule notify_cases [of n r w msg])
  assume "notify msg r (n, w) =
         (Inr (), (setitem r (Members (rev (members n r))) n,
                   w\<lparr>trace := trace w @ map (\<lambda>ws. Sent ws msg) (rev (members n r))\<rparr>))"
  then show ?thesis by auto
next
  fix pre x post e
  assume "members n r = pre @ x # post"
    "notify msg r (n, w) =
         (Inl e, (setitem r (Members pre) n,
                  w\<lparr>trace := trace w @ map (\<lambda>ws. Sent ws msg) (rev post) @ [SendFailed x msg]\<rparr>))"
  then show ?thesis by auto
qed

lemma notify_world:
  "send_error (snd (snd (notify msg r (n, w)))) = send_error w \<and>
   accepted (snd (snd (notify msg r (n, w)))) = accepted w \<and>
   accept_error (snd (snd (notify msg r (n, w)))) = accept_error w \<and>
   insert_error (snd (snd (notify msg r (n, w)))) = insert_error w"
  by (rule notify_cases [of n r w msg]) auto

lemma push_eq:
  "push msg r (n, w) =
     (case generator n of
        Created \<Rightarrow> (Inl TypeError, (n, w))
      | Finished \<Rightarrow> (Inl StopAsyncIteration, (n, w))
      | Suspended \<Rightarrow>
          (case fst (notify msg r (n, w)) of
             Inl e \<Rightarrow> (Inl (if e = StopAsyncIteration then RuntimeError else e),
                       ((fst (snd (notify msg r (n, w))))\<lparr>generator := Finished\<rparr>,
                        snd (snd (notify msg r (n, w)))))
           | Inr u \<Rightarrow> (Inr (), snd (notify msg r (n, w)))))"
  by (cases "generator n")
     (auto simp: push_def asend_def split: prod.splits sum.splits)

lemma push_members:
  "set (members (fst (snd (push msg r' (n, w)))) r) \<subseteq> set (members n r) \<and>
   (distinct (members n r) \<longrightarrow> distinct (members (fst (snd (push msg r' (n, w)))) r))"
  using notify_members [of msg r' n w r]
  by (cases "generator n"; cases "fst (notify msg r' (n, w))") (simp_all add: push_eq)

lemma push_trace:
  "\<exists>evs. trace (snd (snd (push msg r (n, w)))) = trace w @ evs \<and>
     set (attempts evs) \<subseteq> set (members n r) \<and>
     (\<forall>ev\<in>set evs. \<exists>x. ev = Sent x msg \<or> ev = SendFailed x msg)"
proof (cases "generator n = Suspended")
  case True
  then show ?thesis
    using notify_trace [of msg r n w]
    by (cases "fst (notify msg r (n, w))") (simp_all add: push_eq)
next
  case False
  then have "trace (snd (snd (push msg r (n, w)))) = trace w @ []"
    by (cases "generator n") (simp_all add: push_eq)
  then show ?thesis by (intro exI [of _ "[]"]) simp
qed

section \<open>Histories: what stays out of a room\<close>

lemma perform_members:
  "set (members (fst (perform a s)) r) \<subseteq>
     set (members (fst s) r) \<union> (case a of Join ws' r' \<Rightarrow> if r' = r then {ws'} else {} | _ \<Rightarrow> {})"
proof (cases a)
  case (Join ws' r')
  then show ?thesis
    by (cases s) (auto simp: connect_eq members_setitem split: option.splits if_splits)
next
  case (Leave ws' r')
  then show ?thesis
    by (cases s) (auto simp: remove_eq members_setitem dest: set_remove1_subset [THEN subsetD] split: if_splits)
next
  case (Broadcast msg r')
  then show ?thesis
    using push_members [of msg r' "fst s" "snd s" r] by (cases s) auto
next
  case (Query r')
  then show ?thesis by (simp add: get_members_eq)
next
  case (SetSend ws' e)
  then show ?thesis by simp
next
  case (SetAccept ws' e)
  then show ?thesis by simp
qed

lemma run_append: "run (as @ bs) s = run bs (run as s)"
  by (induction as arbitrary: s) simp_all

lemma run_keeps_absent:
  "ws \<notin> set (members (fst s) r) \<Longrightarrow> \<forall>a\<in>set acts. a \<noteq> Join ws r \<Longrightarrow>
   ws \<notin> set (members (fst (run acts s)) r)"
proof (induction acts arbitrary: s)
  case Nil
  then show ?case by simp
next
  case (Cons a acts)
  have "ws \<notin> set (members (fst (perform a s)) r)"
    using perform_members [of a s r] Cons.prems by (cases a) (auto split: if_splits)
  then show ?case using Cons by simp
qed

lemma run_keeps_empty:
  "members (fst s) r = [] \<Longrightarrow> \<forall>a\<in>set acts. \<forall>ws. a \<noteq> Join ws r \<Longrightarrow>
   members (fst (run acts s)) r = []"
proof (induction acts arbitrary: s)
  case Nil
  then show ?case by simp
next
  case (Cons a acts)
  have "set (members (fst (perform a s)) r) \<subseteq> {}"
    using perform_members [of a s r] Cons.prems by (cases a) (auto split: if_splits)
  then have "members (fst (perform a s)) r = []" by simp
  then show ?case using Cons by simp
qed

lemma on_exception_disconnect:
  "on_exception ws r WebSocketDisconnect (n, w) =
     (if ws \<in> set (members n r)
      then (Returned, (setitem r (Members (remove1 ws (members n r))) n, w))
      else (Raised (case connections n r of Some (Members xs) \<Rightarrow> ValueError | _ \<Rightarrow> AttributeError),
            (snd (getitem r n), w)))"
  by (simp add: on_exception_def remove_eq)

section \<open>The session loop\<close>

lemma entry_len_members: "entry_len e = length (entry_members e)"
  by (cases e) simp_all

lemma rejoin_if_absent_cases:
  "rejoin_if_absent ws r (n, w) =
     (if ws \<in> set (members n r) then (Inr (), (snd (getitem r n), w))
      else if ws \<in> accepted w then (Inl RuntimeError, (snd (getitem r n), w))
      else case accept_error w ws of
             Some e \<Rightarrow> (Inl e, (snd (getitem r n), w\<lparr>accepted := insert ws (accepted w)\<rparr>))
           | None \<Rightarrow>
               (Inr (), (setitem r (Members (members n r @ [ws])) n,
                         w\<lparr>accepted := insert ws (accepted w),
                           trace := trace w @ [Accepted ws]\<rparr>)))"
  by (simp add: rejoin_if_absent_eq connect_eq split: option.splits)

lemma rejoin_if_absent_members:
  "fst (rejoin_if_absent ws r (n, w)) = Inr () \<Longrightarrow>
   members (fst (snd (rejoin_if_absent ws r (n, w)))) r' =
     (if r' = r \<and> ws \<notin> set (members n r) then members n r @ [ws] else members n r')"
  by (auto simp: rejoin_if_absent_cases members_setitem split: option.splits if_splits)

lemma rejoin_if_absent_distinct:
  "distinct (members n r') \<Longrightarrow> distinct (members (fst (snd (rejoin_if_absent ws r (n, w)))) r')"
  by (auto simp: rejoin_if_absent_cases members_setitem split: option.splits)

lemma rejoin_if_absent_insert_error:
  "insert_error (snd (snd (rejoin_if_absent ws r (n, w)))) = insert_error w"
  by (auto simp: rejoin_if_absent_cases split: option.splits)

lemma session_store_object:
  assumes "loads data = Some (JObj kvs)"
  shows "session_store loads ws r data s =
     (case rejoin_if_absent ws r s of
        (Inl err, s1) \<Rightarrow> (Inl err, s1)
      | (Inr u, s1) \<Rightarrow>
          (case map_of kvs ''message'' of
             None \<Rightarrow> (Inl (KeyError ''message''), s1)
           | Some m \<Rightarrow>
               (case map_of kvs ''sender'' of
                  None \<Rightarrow> (Inl (KeyError ''sender''), s1)
                | Some sd \<Rightarrow>
                    (case insert_error (snd s1) of Some e \<Rightarrow> Inl e | None \<Rightarrow> Inr (),
                     (fst s1, (snd s1)\<lparr>trace := trace (snd s1) @ [InsertCalled m sd (JStr r)]\<rparr>)))))"
  using assms
  by (auto simp: session_store_def insert_message_def update_conv' Let_def
      split: prod.splits sum.splits option.splits)

lemma session_store_not_object:
  "\<forall>kvs. loads data \<noteq> Some (JObj kvs) \<Longrightarrow>
   session_store loads ws r data s =
     (Inl (if loads data = None then JSONDecodeError else TypeError), s)"
  by (cases "loads data"; cases "the (loads data)") (simp_all add: session_store_def)

lemma session_store_notifier:
  "fst (snd (session_store loads ws r data s)) = fst s \<or>
   fst (snd (session_store loads ws r data s)) = fst (snd (rejoin_if_absent ws r s))"
proof (cases "\<exists>kvs. loads data = Some (JObj kvs)")
  case True
  then obtain kvs where "loads data = Some (JObj kvs)" by blast
  then show ?thesis
    by (auto simp: session_store_object split: prod.splits sum.splits option.splits)
next
  case False
  then show ?thesis by (simp add: session_store_not_object)
qed

lemma session_store_ok:
  assumes "fst (session_store loads ws r data s) = Inr ()"
  shows "fst (rejoin_if_absent ws r s) = Inr () \<and>
         fst (snd (session_store loads ws r data s)) = fst (snd (rejoin_if_absent ws r s))"
proof (cases "\<exists>kvs. loads data = Some (JObj kvs)")
  case True
  then obtain kvs where "loads data = Some (JObj kvs)" by blast
  then show ?thesis using assms
    by (auto simp: session_store_object split: prod.splits sum.splits option.splits)
next
  case False
  then show ?thesis using assms by (simp add: session_store_not_object)
qed

lemma session_store_distinct:
  "distinct (members (fst s) r') \<Longrightarrow>
   distinct (members (fst (snd (session_store loads ws r data s))) r')"
  using session_store_notifier [of loads ws r data s]
    rejoin_if_absent_distinct [of "fst s" r' ws r "snd s"]
  by auto

lemma session_iteration_eq:
  "session_iteration loads ws r data s =
     (case fst (session_store loads ws r data s) of
        Inl err \<Rightarrow> session_store loads ws r data s
      | Inr u \<Rightarrow> push data r (snd (session_store loads ws r data s)))"
  by (cases "session_store loads ws r data s"; cases "fst (session_store loads ws r data s)")
     (auto simp: session_iteration_def)

lemma session_iteration_distinct:
  "distinct (members (fst s) r') \<Longrightarrow>
   distinct (members (fst (snd (session_iteration loads ws r data s))) r')"
  using session_store_distinct [of s r' loads ws r data]
    push_members [of data r "fst (snd (session_store loads ws r data s))"
      "snd (snd (session_store loads ws r data s))" r']
  by (cases "fst (session_store loads ws r data s)") (simp_all add: session_iteration_eq)

text \<open>
  No operation of a session puts a websocket into a list twice: lists without
  duplicates stay so through every iteration, through the disconnect handler and
  through a whole run of the endpoint that starts with a websocket not yet in its
  room.
\<close>

lemma on_exception_distinct:
  "distinct (members (fst s) r') \<Longrightarrow>
   distinct (members (fst (snd (on_exception ws r err s))) r')"
  by (cases s) (auto simp: on_exception_def remove_eq members_setitem)

lemma session_loop_distinct:
  "distinct (members (fst s) r') \<Longrightarrow>
   distinct (members (fst (snd (session_loop loads ws r inbound s))) r')"
proof (induction inbound arbitrary: s)
  case Nil
  then show ?case by simp
next
  case (Cons ev inbound)
  show ?case
  proof (cases ev)
    case (Text data)
    have d: "distinct (members (fst (snd (session_iteration loads ws r data s))) r')"
      using Cons.prems by (rule session_iteration_distinct)
    show ?thesis
    proof (cases "fst (session_iteration loads ws r data s)")
      case (Inl err)
      then show ?thesis using Text on_exception_distinct [OF d]
        by (cases "session_iteration loads ws r data s") simp
    next
      case (Inr u)
      then show ?thesis using Text Cons.IH [OF d]
        by (cases "session_iteration loads ws r data s") simp
    qed
  next
    case (ReceiveRaises err)
    then show ?thesis using Cons.prems by (simp add: on_exception_distinct)
  qed
qed

lemma websocket_endpoint_distinct:
  assumes "distinct (members (fst s) r')" and "ws \<notin> set (members (fst s) r)"
  shows "distinct (members (fst (snd (websocket_endpoint loads ws r inbound s))) r')"
proof -
  have d: "distinct (members (fst (snd (connect ws r s))) r')"
    using assms by (cases s) (auto simp: connect_eq members_setitem split: option.splits)
  show ?thesis
  proof (cases "fst (connect ws r s)")
    case (Inl err)
    then show ?thesis using d
      by (cases "connect ws r s") (simp add: websocket_endpoint_def)
  next
    case (Inr u)
    then show ?thesis using session_loop_distinct [OF d]
      by (cases "connect ws r s") (simp add: websocket_endpoint_def)
  qed
qed

lemma perform_distinct:
  assumes "distinct (members (fst s) r)" and "\<forall>ws'. a = Join ws' r \<longrightarrow> ws' \<notin> set (members (fst s) r)"
  shows "distinct (members (fst (perform a s)) r)"
proof (cases a)
  case (Join ws' r')
  then show ?thesis using assms
    by (cases s) (auto simp: connect_eq members_setitem split: option.splits)
next
  case (Leave ws' r')
  then show ?thesis using assms
    by (cases s) (auto simp: remove_eq members_setitem)
next
  case (Broadcast msg r')
  then show ?thesis
    using push_members [of msg r' "fst s" "snd s" r] assms by (cases s) auto
next
  case (Query r')
  then show ?thesis using assms by (simp add: get_members_eq)
next
  case (SetSend ws' e)
  then show ?thesis using assms by simp
next
  case (SetAccept ws' e)
  then show ?thesis using assms by simp
qed

text \<open>
  The line of \<open>startup_event\<close> that starts the generator takes the new notifier to
  the started one.
\<close>

lemma startup_generator_started:
  "startup_generator (Notifier, w) = (Inr (), (started, w))"
  by (simp add: startup_generator_def asend_def Notifier_def started_def)

section \<open>The broadcast between its awaits\<close>

text \<open>
  The step-wise broadcast is the same code as \<open>push\<close>: run to its end with nothing
  scheduled at its awaits, it returns what \<open>push\<close> returns and leaves the state that
  \<open>push\<close> leaves.
\<close>

lemma entry_len_fst_getitem [simp]: "entry_len (fst (getitem r n)) = length (members n r)"
  by (simp add: entry_len_members)

lemma notify_head_eq:
  "notify_head msg r living (n, w) =
     (if members n r = [] then (Return (Inr ()), (setitem r (Members living) n, w))
      else (Suspend \<lparr>fr_message = msg, fr_room = r, fr_living = living,
                     fr_websocket = last (members n r)\<rparr>,
            (setitem r (Members (butlast (members n r))) n, w)))"
proof (cases "members n r = []")
  case True
  then show ?thesis
    by (simp add: notify_head_def case_prod_beta)
next
  case False
  then have c: "connections n r = Some (Members (members n r))"
    by (simp add: members_nonempty_entry)
  have "getitem r n = (Members (members n r), n)"
    by (simp add: getitem_def c)
  then show ?thesis using False
    by (simp add: notify_head_def pop_def)
qed

lemma push_resume_eq:
  "push_resume fr (n, w) =
     (case send_error w (fr_websocket fr) of
        Some e \<Rightarrow>
          (Return (Inl (if e = StopAsyncIteration then RuntimeError else e)),
           (n\<lparr>generator := Finished\<rparr>,
            w\<lparr>trace := trace w @ [SendFailed (fr_websocket fr) (fr_message fr)]\<rparr>))
      | None \<Rightarrow>
          notify_head (fr_message fr) (fr_room fr) (fr_living fr @ [fr_websocket fr])
            (n, w\<lparr>trace := trace w @ [Sent (fr_websocket fr) (fr_message fr)]\<rparr>))"
  by (simp add: push_resume_def send_text_def split: option.splits)

lemma complete_notify_head:
  "members n r = xs \<Longrightarrow>
   complete (notify_head msg r living (n, w)) =
     (case notify_loop msg r living (n, w) of
        (Inl e, s1) \<Rightarrow> (Inl (if e = StopAsyncIteration then RuntimeError else e),
                        ((fst s1)\<lparr>generator := Finished\<rparr>, snd s1))
      | (Inr u, s1) \<Rightarrow> (Inr (), s1))"
proof (induction xs arbitrary: n w living rule: rev_induct)
  case Nil
  then show ?case by (simp add: notify_head_eq notify_loop_empty)
next
  case (snoc x xs)
  have m: "members (setitem r (Members xs) n) r = xs" by (simp add: members_setitem)
  show ?case
  proof (cases "send_error w x")
    case None
    then show ?thesis
      using snoc.IH [OF m, where living = "living @ [x]"
          and w = "w\<lparr>trace := trace w @ [Sent x msg]\<rparr>"]
      by (simp add: notify_head_eq snoc.prems push_resume_eq
          notify_loop_snoc [OF snoc.prems] send_text_def)
  next
    case (Some e)
    then show ?thesis
      by (simp add: notify_head_eq snoc.prems push_resume_eq
          notify_loop_snoc [OF snoc.prems] send_text_def)
  qed
qed

lemma complete_push_begin: "complete (push_begin msg r s) = push msg r s"
proof (cases s)
  case (Pair n w)
  show ?thesis
  proof (cases "generator n")
    case Suspended
    then show ?thesis
      using complete_notify_head [of n r "members n r" msg "[]" w]
      by (simp add: Pair push_begin_def push_suspended notify_def)
  qed (simp_all add: Pair push_begin_def push_def asend_def)
qed

lemma notify_loop_unfold:
  "notify_loop msg r living (n, w) =
     (if members n r = [] then (Inr (), (setitem r (Members living) n, w))
      else
        (case send_error w (last (members n r)) of
           Some e \<Rightarrow>
             (Inl e, (setitem r (Members (butlast (members n r))) n,
                      w\<lparr>trace := trace w @ [SendFailed (last (members n r)) msg]\<rparr>))
         | None \<Rightarrow>
             notify_loop msg r (living @ [last (members n r)])
               (setitem r (Members (butlast (members n r))) n,
                w\<lparr>trace := trace w @ [Sent (last (members n r)) msg]\<rparr>)))"
proof (cases "members n r = []")
  case True
  then show ?thesis by (simp add: notify_loop_empty)
next
  case False
  then have "members n r = butlast (members n r) @ [last (members n r)]" by simp
  from notify_loop_snoc [OF this, of msg living w] False show ?thesis
    by (simp add: send_text_def split: option.splits)
qed

section \<open>What every schedule keeps\<close>

lemma push_world:
  "send_error (snd (snd (push msg r (n, w)))) = send_error w \<and>
   accepted (snd (snd (push msg r (n, w)))) = accepted w \<and>
   accept_error (snd (snd (push msg r (n, w)))) = accept_error w \<and>
   insert_error (snd (snd (push msg r (n, w)))) = insert_error w"
  using notify_world [of msg r n w]
  by (cases "generator n"; cases "fst (notify msg r (n, w))") (simp_all add: push_eq)

lemma pop_last_distinct:
  assumes "xs \<noteq> []" and "distinct (ys @ xs)"
  shows "distinct ((ys @ [last xs]) @ butlast xs)"
proof -
  obtain zs z where xs: "xs = zs @ [z]"
    using assms(1) by (cases xs rule: rev_cases) auto
  show ?thesis using assms(2) by (auto simp: xs)
qed

lemma pop_last_set:
  assumes "xs \<noteq> []"
  shows "set ((ys @ [last xs]) @ butlast xs) = set (ys @ xs)"
proof -
  obtain zs z where xs: "xs = zs @ [z]"
    using assms by (cases xs rule: rev_cases) auto
  show ?thesis by (auto simp: xs)
qed

lemma sound_initial: "connections n0 = Map.empty \<Longrightarrow> sound (None, (n0, w0))"
  by (simp add: sound_def members_def)

lemma sound_members:
  "sound (f, (n, w)) \<Longrightarrow> distinct (members n r) \<and> set (members n r) \<subseteq> accepted w"
  by (auto simp: sound_def)

lemma soundI:
  "(\<And>r. distinct (in_flight f r @ members n r)) \<Longrightarrow>
   (\<And>r. set (in_flight f r @ members n r) \<subseteq> accepted w) \<Longrightarrow> sound (f, (n, w))"
  by (simp add: sound_def)

lemma soundD:
  "sound (f, (n, w)) \<Longrightarrow>
   distinct (in_flight f r @ members n r) \<and> set (in_flight f r @ members n r) \<subseteq> accepted w"
  by (simp add: sound_def)

lemma sound_join:
  assumes "sound (f, (n, w))"
  shows "sound (f, snd (connect ws r' (n, w)))"
proof (cases "ws \<in> accepted w")
  case True
  then show ?thesis using assms by (simp add: connect_eq)
next
  case fresh: False
  show ?thesis
  proof (cases "accept_error w ws")
    case (Some e)
    have "sound (f, (n, w\<lparr>accepted := insert ws (accepted w)\<rparr>))"
    proof (rule soundI)
      fix r show "distinct (in_flight f r @ members n r)"
        using soundD [OF assms, of r] by simp
      show "set (in_flight f r @ members n r) \<subseteq> accepted (w\<lparr>accepted := insert ws (accepted w)\<rparr>)"
        using soundD [OF assms, of r] by auto
    qed
    then show ?thesis using fresh Some by (simp add: connect_eq)
  next
    case None
    have "sound (f, (setitem r' (Members (members n r' @ [ws])) n,
        w\<lparr>accepted := insert ws (accepted w), trace := trace w @ [Accepted ws]\<rparr>))"
    proof (rule soundI)
      fix r
      have new: "ws \<notin> set (in_flight f r @ members n r)"
        using soundD [OF assms, of r] fresh by auto
      show "distinct (in_flight f r @ members (setitem r' (Members (members n r' @ [ws])) n) r)"
        using soundD [OF assms, of r] new by (auto simp: members_setitem)
      show "set (in_flight f r @ members (setitem r' (Members (members n r' @ [ws])) n) r)
            \<subseteq> accepted (w\<lparr>accepted := insert ws (accepted w), trace := trace w @ [Accepted ws]\<rparr>)"
        using soundD [OF assms, of r] by (auto simp: members_setitem)
    qed
    then show ?thesis using fresh None by (simp add: connect_eq)
  qed
qed

lemma sound_leave:
  assumes "sound (f, (n, w))"
  shows "sound (f, (snd (remove ws r' n), w))"
proof (cases "ws \<in> set (members n r')")
  case True
  have "sound (f, (setitem r' (Members (remove1 ws (members n r'))) n, w))"
  proof (rule soundI)
    fix r
    show "distinct (in_flight f r @ members (setitem r' (Members (remove1 ws (members n r'))) n) r)"
      using soundD [OF assms, of r] set_remove1_subset [of ws "members n r'"]
      by (auto simp: members_setitem)
    show "set (in_flight f r @ members (setitem r' (Members (remove1 ws (members n r'))) n) r)
          \<subseteq> accepted w"
      using soundD [OF assms, of r] set_remove1_subset [of ws "members n r'"]
      by (auto simp: members_setitem)
  qed
  then show ?thesis using True by (simp add: remove_eq)
next
  case False
  have "sound (f, (snd (getitem r' n), w))"
    using assms by (simp add: sound_def)
  then show ?thesis using False by (simp add: remove_eq)
qed

lemma sound_push:
  assumes "sound (None, (n, w))"
  shows "sound (None, snd (push msg r' (n, w)))"
proof -
  obtain n1 w1 where p: "snd (push msg r' (n, w)) = (n1, w1)"
    by (cases "snd (push msg r' (n, w))")
  have "sound (None, (n1, w1))"
  proof (rule soundI)
    fix r
    show "distinct (in_flight None r @ members n1 r)"
      using soundD [OF assms, of r] push_members [of msg r' n w r] by (simp add: p)
    show "set (in_flight None r @ members n1 r) \<subseteq> accepted w1"
      using soundD [OF assms, of r] push_members [of msg r' n w r] push_world [of msg r' n w]
      by (auto simp: p)
  qed
  then show ?thesis by (simp add: p)
qed

lemma sound_perform:
  assumes "sound (f, s)" and "f = None \<or> (\<forall>msg r. a \<noteq> Broadcast msg r)"
  shows "sound (f, perform a s)"
proof (cases s)
  case (Pair n w)
  show ?thesis
  proof (cases a)
    case (Join ws' r')
    then show ?thesis using sound_join [of f n w ws' r'] assms(1) by (simp add: Pair)
  next
    case (Leave ws' r')
    then show ?thesis using sound_leave [of f n w ws' r'] assms(1) by (simp add: Pair)
  next
    case (Broadcast msg r')
    then have f: "f = None" using assms(2) by simp
    show ?thesis using sound_push [of n w msg r'] assms(1) Broadcast by (simp add: Pair f)
  next
    case (Query r')
    then show ?thesis using assms(1) by (simp add: Pair get_members_eq sound_def)
  next
    case (SetSend ws' e)
    then show ?thesis using assms(1) by (simp add: Pair sound_def)
  next
    case (SetAccept ws' e)
    then show ?thesis using assms(1) by (simp add: Pair sound_def)
  qed
qed

lemma sound_notify_head:
  assumes "\<And>r. distinct ((if r' = r then living else []) @ members n r)"
    and "\<And>r. set ((if r' = r then living else []) @ members n r) \<subseteq> accepted w"
  shows "sound (case fst (notify_head msg r' living (n, w)) of Suspend fr \<Rightarrow> Some fr | Return res \<Rightarrow> None,
                snd (notify_head msg r' living (n, w)))"
proof (cases "members n r' = []")
  case True
  have "sound (None, (setitem r' (Members living) n, w))"
  proof (rule soundI)
    fix r
    show "distinct (in_flight None r @ members (setitem r' (Members living) n) r)"
      using assms(1) [of r] by (auto simp: members_setitem)
    show "set (in_flight None r @ members (setitem r' (Members living) n) r) \<subseteq> accepted w"
      using assms(2) [of r] by (auto simp: members_setitem)
  qed
  then show ?thesis using True by (simp add: notify_head_eq)
next
  case False
  let ?fr = "\<lparr>fr_message = msg, fr_room = r', fr_living = living,
              fr_websocket = last (members n r')\<rparr>"
  have "sound (Some ?fr, (setitem r' (Members (butlast (members n r'))) n, w))"
  proof (rule soundI)
    fix r
    show "distinct (in_flight (Some ?fr) r @ members (setitem r' (Members (butlast (members n r'))) n) r)"
      using assms(1) [of r] pop_last_distinct [OF False, of living]
      by (auto simp: members_setitem)
    show "set (in_flight (Some ?fr) r @ members (setitem r' (Members (butlast (members n r'))) n) r)
          \<subseteq> accepted w"
      using assms(2) [of r] pop_last_set [OF False, of living]
      by (auto simp: members_setitem)
  qed
  then show ?thesis using False by (simp add: notify_head_eq)
qed

lemma sound_begin:
  assumes "sound (None, (n, w))"
  shows "sound (case fst (push_begin msg r' (n, w)) of Suspend fr \<Rightarrow> Some fr | Return res \<Rightarrow> None,
                snd (push_begin msg r' (n, w)))"
proof (cases "generator n")
  case Suspended
  have "sound (case fst (notify_head msg r' [] (n, w)) of Suspend fr \<Rightarrow> Some fr | Return res \<Rightarrow> None,
                snd (notify_head msg r' [] (n, w)))"
  proof (rule sound_notify_head)
    fix r
    show "distinct ((if r' = r then [] else []) @ members n r)"
      using soundD [OF assms, of r] by simp
    show "set ((if r' = r then [] else []) @ members n r) \<subseteq> accepted w"
      using soundD [OF assms, of r] by simp
  qed
  then show ?thesis using Suspended by (simp add: push_begin_def)
qed (use assms in \<open>simp_all add: push_begin_def\<close>)

lemma sound_resume:
  assumes "sound (Some fr, (n, w))"
  shows "sound (case fst (push_resume fr (n, w)) of Suspend fr1 \<Rightarrow> Some fr1 | Return res \<Rightarrow> None,
                snd (push_resume fr (n, w)))"
proof (cases "send_error w (fr_websocket fr)")
  case (Some e)
  have "sound (None, (n\<lparr>generator := Finished\<rparr>,
      w\<lparr>trace := trace w @ [SendFailed (fr_websocket fr) (fr_message fr)]\<rparr>))"
  proof (rule soundI)
    fix r
    show "distinct (in_flight None r @ members (n\<lparr>generator := Finished\<rparr>) r)"
      using soundD [OF assms, of r] by simp
    show "set (in_flight None r @ members (n\<lparr>generator := Finished\<rparr>) r)
          \<subseteq> accepted (w\<lparr>trace := trace w @ [SendFailed (fr_websocket fr) (fr_message fr)]\<rparr>)"
      using soundD [OF assms, of r] by simp
  qed
  then show ?thesis using Some by (simp add: push_resume_eq)
next
  case None
  let ?w = "w\<lparr>trace := trace w @ [Sent (fr_websocket fr) (fr_message fr)]\<rparr>"
  let ?living = "fr_living fr @ [fr_websocket fr]"
  have "sound (case fst (notify_head (fr_message fr) (fr_room fr) ?living (n, ?w)) of
                 Suspend fr1 \<Rightarrow> Some fr1 | Return res \<Rightarrow> None,
               snd (notify_head (fr_message fr) (fr_room fr) ?living (n, ?w)))"
  proof (rule sound_notify_head)
    fix r
    show "distinct ((if fr_room fr = r then ?living else []) @ members n r)"
      using soundD [OF assms, of r] by simp
    show "set ((if fr_room fr = r then ?living else []) @ members n r) \<subseteq> accepted ?w"
      using soundD [OF assms, of r] by simp
  qed
  then show ?thesis using None by (simp add: push_resume_eq)
qed

lemma sound_disconnect:
  assumes "sound (f, s)"
  shows "sound (f, snd (on_exception ws r WebSocketDisconnect s))"
proof (cases s)
  case (Pair n w)
  have "snd (on_exception ws r WebSocketDisconnect (n, w)) = (snd (remove ws r n), w)"
    by (cases "remove ws r n"; cases "fst (remove ws r n)") (auto simp: on_exception_def)
  then show ?thesis using sound_leave [of f n w ws r] assms by (simp add: Pair)
qed

lemma sound_sched_step: "sound c \<Longrightarrow> sound (sched_step st c)"
proof (cases c)
  case (fields f n w)
  assume inv: "sound c"
  show ?thesis
  proof (cases st)
    case (Whole a)
    show ?thesis
    proof (cases "\<exists>msg r. a = Broadcast msg r")
      case True
      then obtain msg r where a: "a = Broadcast msg r" by blast
      show ?thesis
      proof (cases f)
        case None
        then show ?thesis
          using sound_perform [of None "(n, w)" a] inv by (simp add: fields Whole a)
      next
        case (Some fr)
        then show ?thesis using inv by (simp add: fields Whole a)
      qed
    next
      case False
      then have "sched_step (Whole a) (f, (n, w)) = (f, perform a (n, w))"
        by (cases a) simp_all
      then show ?thesis
        using sound_perform [of f "(n, w)" a] inv False by (simp add: fields Whole)
    qed
  next
    case (Begin msg r)
    show ?thesis
    proof (cases f)
      case None
      then show ?thesis
        using sound_begin [of n w msg r] inv
        by (cases "push_begin msg r (n, w)"; cases "fst (push_begin msg r (n, w))")
           (auto simp: fields Begin)
    next
      case (Some fr)
      then show ?thesis using inv by (simp add: fields Begin)
    qed
  next
    case Resume
    show ?thesis
    proof (cases f)
      case None
      then show ?thesis using inv by (simp add: fields Resume)
    next
      case (Some fr)
      then show ?thesis
        using sound_resume [of fr n w] inv
        by (cases "push_resume fr (n, w)"; cases "fst (push_resume fr (n, w))")
           (auto simp: fields Resume)
    qed
  next
    case (Disconnect ws r)
    then show ?thesis using sound_disconnect [of f "(n, w)" ws r] inv by (simp add: fields)
  qed
qed

lemma sound_run_schedule: "sound c \<Longrightarrow> sound (run_schedule sts c)"
  by (induction sts arbitrary: c) (simp_all add: sound_sched_step)

text \<open>
  A room that nobody joins stays empty in every schedule, also with broadcasts cut at
  their awaits.
\<close>

lemma sched_step_keeps_empty:
  assumes "members (fst (snd c)) r = [] \<and> in_flight (fst c) r = []"
    and "\<forall>ws. st \<noteq> Whole (Join ws r)"
  shows "members (fst (snd (sched_step st c))) r = [] \<and> in_flight (fst (sched_step st c)) r = []"
proof (cases c)
  case (fields f n w)
  have m: "members n r = []" and fl: "in_flight f r = []"
    using assms(1) by (simp_all add: fields)
  show ?thesis
  proof (cases st)
    case (Whole a)
    have "set (members (fst (perform a (n, w))) r) \<subseteq> {}"
      using perform_members [of a "(n, w)" r] assms(2) m Whole by (cases a) (auto split: if_splits)
    then have pm: "members (fst (perform a (n, w))) r = []" by simp
    show ?thesis
    proof (cases "\<exists>msg r'. a = Broadcast msg r'")
      case True
      then obtain msg r' where a: "a = Broadcast msg r'" by blast
      show ?thesis using pm m fl by (cases f) (simp_all add: fields Whole a)
    next
      case False
      then have "sched_step (Whole a) (f, (n, w)) = (f, perform a (n, w))"
        by (cases a) simp_all
      then show ?thesis using pm fl by (simp add: fields Whole)
    qed
  next
    case (Begin msg r')
    show ?thesis
    proof (cases f)
      case None
      show ?thesis
      proof (cases "generator n = Suspended")
        case True
        then show ?thesis using m None
          by (cases "r' = r") (auto simp: fields Begin push_begin_def notify_head_eq members_setitem)
      next
        case False
        then show ?thesis using m None
          by (cases "generator n") (simp_all add: fields Begin push_begin_def)
      qed
    next
      case (Some fr)
      then show ?thesis using m fl by (simp add: fields Begin)
    qed
  next
    case Resume
    show ?thesis
    proof (cases f)
      case None
      then show ?thesis using m by (simp add: fields Resume)
    next
      case (Some fr)
      then have ne: "fr_room fr \<noteq> r" using fl by (auto split: if_splits)
      then show ?thesis using m Some
        by (cases "send_error w (fr_websocket fr)")
           (auto simp: fields Resume push_resume_eq notify_head_eq members_setitem)
    qed
  next
    case (Disconnect ws r')
    have "snd (on_exception ws r' WebSocketDisconnect (n, w)) = (snd (remove ws r' n), w)"
      by (cases "remove ws r' n"; cases "fst (remove ws r' n)") (auto simp: on_exception_def)
    then show ?thesis using m fl
      by (auto simp: fields Disconnect remove_eq members_setitem)
  qed
qed

lemma run_schedule_keeps_empty:
  "members (fst (snd c)) r = [] \<and> in_flight (fst c) r = [] \<Longrightarrow>
   \<forall>st\<in>set sts. \<forall>ws. st \<noteq> Whole (Join ws r) \<Longrightarrow>
   members (fst (snd (run_schedule sts c))) r = []"
proof (induction sts arbitrary: c)
  case Nil
  then show ?case by simp
next
  case (Cons st sts)
  have "members (fst (snd (sched_step st c))) r = [] \<and> in_flight (fst (sched_step st c)) r = []"
    using Cons.prems by (intro sched_step_keeps_empty) auto
  then show ?case using Cons by simp
qed

lemma never_joined_room_stays_empty:
  assumes "connections n0 = Map.empty" and "\<forall>st\<in>set sts. \<forall>ws. st \<noteq> Whole (Join ws r)"
  shows "\<exists>e. fst (get_members r (fst (snd (run_schedule sts (None, (n0, w)))))) = Some e \<and>
              entry_len e = 0 \<and> entry_members e = []"
proof -
  have "members (fst (snd (None, (n0, w)))) r = [] \<and> in_flight (fst (None :: frame option, (n0, w))) r = []"
    using assms(1) by (simp add: members_def)
  then have "members (fst (snd (run_schedule sts (None, (n0, w))))) r = []"
    using assms(2) by (rule run_schedule_keeps_empty)
  then show ?thesis
    by (simp add: get_members_eq)
qed

text \<open>
  With no broadcast suspended at an await, the disconnect handler does take the
  websocket out of a duplicate-free list, and it stays out.
\<close>

lemma unbroken_disconnect_leaves_room:
  assumes "distinct (members (fst s) r)" and "\<forall>a\<in>set acts. a \<noteq> Join ws r"
  shows "ws \<notin> set (members (fst (snd (session_loop loads ws r (ReceiveRaises WebSocketDisconnect # rest) s))) r) \<and>
         ws \<notin> set (members (fst (run acts (snd (session_loop loads ws r (ReceiveRaises WebSocketDisconnect # rest) s)))) r) \<and>
         (\<exists>evs. trace (snd (snd (push msg r (run acts (snd (session_loop loads ws r (ReceiveRaises WebSocketDisconnect # rest) s)))))) =
                   trace (snd (run acts (snd (session_loop loads ws r (ReceiveRaises WebSocketDisconnect # rest) s)))) @ evs \<and>
                ws \<notin> set (attempts evs))"
proof -
  define s1 where "s1 = snd (session_loop loads ws r (ReceiveRaises WebSocketDisconnect # rest) s)"
  define s2 where "s2 = run acts s1"
  have a1: "ws \<notin> set (members (fst s1) r)"
    using assms(1) by (cases s) (simp add: s1_def on_exception_disconnect members_setitem)
  then have a2: "ws \<notin> set (members (fst s2) r)"
    unfolding s2_def using assms(2) by (rule run_keeps_absent)
  obtain evs where "trace (snd (snd (push msg r (fst s2, snd s2)))) = trace (snd s2) @ evs"
    "set (attempts evs) \<subseteq> set (members (fst s2) r)"
    using push_trace [of msg r "fst s2" "snd s2"] by blast
  with a2 have "\<exists>evs. trace (snd (snd (push msg r s2))) = trace (snd s2) @ evs \<and> ws \<notin> set (attempts evs)"
    by auto
  with a1 a2 show ?thesis
    unfolding s2_def s1_def by blast
qed

section \<open>The example histories, evaluated\<close>

lemma members_started [simp]: "members started r = []"
  by (simp add: started_def members_def)

lemma generator_started [simp]: "generator started = Suspended"
  by (simp add: started_def)

lemma calm_fields [simp]:
  "send_error calm = Map.empty" "accept_error calm = Map.empty" "insert_error calm = None"
  "trace calm = []" "accepted calm = {1, 2, 3, 4, 5, 6, 7, 8, 9}"
  by (simp_all add: calm_def)

lemma race_before_disconnect:
  "run_schedule (take 4 race) (None, (started, calm)) =
     (Some \<lparr>fr_message = ''x'', fr_room = ''lobby'', fr_living = [11], fr_websocket = 10\<rparr>,
      (setitem ''lobby'' (Members []) started,
       calm\<lparr>accepted := insert 11 (insert 10 (accepted calm)),
            trace := [Accepted 10, Accepted 11, Sent 11 ''x'']\<rparr>))"
  by (simp add: race_def connect_eq push_begin_def notify_head_eq push_resume_eq members_setitem)

lemma race_after:
  "run_schedule race (None, (started, calm)) =
     (None,
      (setitem ''lobby'' (Members [11, 10]) started,
       calm\<lparr>send_error := [11 \<mapsto> ExternalError ''closed''],
            accepted := insert 11 (insert 10 (accepted calm)),
            trace := [Accepted 10, Accepted 11, Sent 11 ''x'', Sent 10 ''x'']\<rparr>))"
  by (simp add: race_def connect_eq push_begin_def notify_head_eq push_resume_eq members_setitem
      on_exception_def remove_eq)

lemma dropped_after:
  "run dropped (started, calm) =
     ((setitem ''lobby'' (Members []) started)\<lparr>generator := Finished\<rparr>,
      calm\<lparr>send_error := [10 \<mapsto> ExternalError ''closed''],
           accepted := insert 12 (insert 11 (insert 10 (accepted calm))),
           trace := [Accepted 10, Accepted 11, Accepted 12, Sent 12 ''x'', Sent 11 ''x'',
                     SendFailed 10 ''x'']\<rparr>)"
  by (simp add: dropped_def connect_eq push_suspended notify_def notify_loop_unfold members_setitem)

lemma example_loads_hi [simp]:
  "example_loads hi_payload = Some (JObj [(''message'', JStr ''hi''), (''sender'', JStr ''A'')])"
  by (simp add: example_loads_def)

section \<open>What the iteration of a member does\<close>

text \<open>
  For a payload that parses to an object with \<open>message\<close> field \<open>m\<close> and
  \<open>sender\<close> field \<open>sd\<close>, received on a session bound to room \<open>r\<close> whose
  websocket is in the room's list: the first thing that happens is the call of
  \<open>insert_message\<close> with \<open>m\<close>, \<open>sd\<close> and \<open>r\<close>. If the call raises, nothing
  is broadcast. If it returns, \<open>push\<close> is invoked with the received text itself; and
  on an idle generator the events after the call are exactly the sends of that text,
  unchanged, to the members in pop order: to all of them when no send fails, and
  otherwise up to the first failing member, whose failed send is the last event.
\<close>

lemma member_session_stores_then_broadcasts:
  assumes "loads data = Some (JObj kvs)"
    and "map_of kvs ''message'' = Some m"
    and "map_of kvs ''sender'' = Some sd"
    and "ws \<in> set (members n r)"
  shows
    "session_store loads ws r data (n, w) =
       (case insert_error w of None \<Rightarrow> Inr () | Some e \<Rightarrow> Inl e,
        (n, w\<lparr>trace := trace w @ [InsertCalled m sd (JStr r)]\<rparr>)) \<and>
     (insert_error w \<noteq> None \<longrightarrow>
        session_iteration loads ws r data (n, w) = session_store loads ws r data (n, w)) \<and>
     (insert_error w = None \<longrightarrow>
        session_iteration loads ws r data (n, w) =
          push data r (n, w\<lparr>trace := trace w @ [InsertCalled m sd (JStr r)]\<rparr>)) \<and>
     (insert_error w = None \<and> generator n = Suspended \<and>
      (\<forall>x\<in>set (members n r). send_error w x = None) \<longrightarrow>
        fst (session_iteration loads ws r data (n, w)) = Inr () \<and>
        trace (snd (snd (session_iteration loads ws r data (n, w)))) =
          trace w @ InsertCalled m sd (JStr r) # map (\<lambda>x. Sent x data) (rev (members n r))) \<and>
     (insert_error w = None \<and> generator n = Suspended \<and>
      members n r = pre @ x # post \<and> send_error w x = Some e \<and>
      (\<forall>y\<in>set post. send_error w y = None) \<longrightarrow>
        trace (snd (snd (session_iteration loads ws r data (n, w)))) =
          trace w @ InsertCalled m sd (JStr r) # map (\<lambda>y. Sent y data) (rev post) @
          [SendFailed x data])"
proof -
  let ?w = "w\<lparr>trace := trace w @ [InsertCalled m sd (JStr r)]\<rparr>"
  have c: "connections n r = Some (Members (members n r))"
    using assms(4) by (intro members_nonempty_entry) auto
  have g: "snd (getitem r n) = n"
    by (simp add: getitem_def c)
  have rj: "rejoin_if_absent ws r (n, w) = (Inr (), (n, w))"
    using assms(4) by (simp add: rejoin_if_absent_cases g)
  have st: "session_store loads ws r data (n, w) =
       (case insert_error w of None \<Rightarrow> Inr () | Some e \<Rightarrow> Inl e, (n, ?w))"
    using assms(2,3)
    by (simp add: session_store_object [of loads data kvs ws r "(n, w)", OF assms(1)] rj)
  have it_fail: "insert_error w \<noteq> None \<longrightarrow>
        session_iteration loads ws r data (n, w) = session_store loads ws r data (n, w)"
    by (auto simp: session_iteration_eq st)
  have it_ok: "insert_error w = None \<longrightarrow>
        session_iteration loads ws r data (n, w) = push data r (n, ?w)"
    by (simp add: session_iteration_eq st)
  have all_ok: "insert_error w = None \<and> generator n = Suspended \<and>
      (\<forall>x\<in>set (members n r). send_error w x = None) \<longrightarrow>
        fst (session_iteration loads ws r data (n, w)) = Inr () \<and>
        trace (snd (snd (session_iteration loads ws r data (n, w)))) =
          trace w @ InsertCalled m sd (JStr r) # map (\<lambda>x. Sent x data) (rev (members n r))"
  proof (intro impI)
    assume a: "insert_error w = None \<and> generator n = Suspended \<and>
      (\<forall>x\<in>set (members n r). send_error w x = None)"
    then have ok: "\<forall>x\<in>set (members n r). send_error ?w x = None" by simp
    from a it_ok have "session_iteration loads ws r data (n, w) = push data r (n, ?w)" by simp
    then show "fst (session_iteration loads ws r data (n, w)) = Inr () \<and>
        trace (snd (snd (session_iteration loads ws r data (n, w)))) =
          trace w @ InsertCalled m sd (JStr r) # map (\<lambda>x. Sent x data) (rev (members n r))"
      using a by (simp add: push_suspended notify_all_ok [OF ok])
  qed
  have failure: "insert_error w = None \<and> generator n = Suspended \<and>
      members n r = pre @ x # post \<and> send_error w x = Some e \<and>
      (\<forall>y\<in>set post. send_error w y = None) \<longrightarrow>
        trace (snd (snd (session_iteration loads ws r data (n, w)))) =
          trace w @ InsertCalled m sd (JStr r) # map (\<lambda>y. Sent y data) (rev post) @
          [SendFailed x data]"
  proof (intro impI)
    assume a: "insert_error w = None \<and> generator n = Suspended \<and>
      members n r = pre @ x # post \<and> send_error w x = Some e \<and>
      (\<forall>y\<in>set post. send_error w y = None)"
    then have nf: "notify data r (n, ?w) =
        (Inl e, (setitem r (Members pre) n,
                 ?w\<lparr>trace := trace ?w @ map (\<lambda>y. Sent y data) (rev post) @ [SendFailed x data]\<rparr>))"
      by (intro notify_first_failure) simp_all
    from a it_ok have "session_iteration loads ws r data (n, w) = push data r (n, ?w)" by simp
    then show "trace (snd (snd (session_iteration loads ws r data (n, w)))) =
          trace w @ InsertCalled m sd (JStr r) # map (\<lambda>y. Sent y data) (rev post) @
          [SendFailed x data]"
      using a by (simp add: push_suspended nf)
  qed
  from st it_fail it_ok all_ok failure show ?thesis by blast
qed

lemma member_session_example:
  "session_store example_loads 4 ''lobby'' hi_payload (lobby [4, 5], calm) =
     (Inr (), (lobby [4, 5],
               calm\<lparr>trace := [InsertCalled (JStr ''hi'') (JStr ''A'') (JStr ''lobby'')]\<rparr>)) \<and>
   fst (session_iteration example_loads 4 ''lobby'' hi_payload (lobby [4, 5], calm)) = Inr () \<and>
   trace (snd (snd (session_iteration example_loads 4 ''lobby'' hi_payload (lobby [4, 5], calm)))) =
     [InsertCalled (JStr ''hi'') (JStr ''A'') (JStr ''lobby''), Sent 5 hi_payload, Sent 4 hi_payload] \<and>
   trace (snd (snd (session_iteration example_loads 4 ''lobby'' hi_payload (lobby [4, 5], broken 4)))) =
     [InsertCalled (JStr ''hi'') (JStr ''A'') (JStr ''lobby''), Sent 5 hi_payload,
      SendFailed 4 hi_payload]"
proof -
  have h1: "example_loads hi_payload = Some (JObj [(''message'', JStr ''hi''), (''sender'', JStr ''A'')])"
    by (simp add: example_loads_def)
  have h2: "map_of [(''message'', JStr ''hi''), (''sender'', JStr ''A'')] ''message'' = Some (JStr ''hi'')"
    by simp
  have h3: "map_of [(''message'', JStr ''hi''), (''sender'', JStr ''A'')] ''sender'' = Some (JStr ''A'')"
    by simp
  have m: "members (lobby [4, 5]) ''lobby'' = [4, 5]"
    by (simp add: lobby_def members_def)
  have h4: "4 \<in> set (members (lobby [4, 5]) ''lobby'')"
    by (simp add: m)
  have g: "generator (lobby [4, 5]) = Suspended"
    by (simp add: lobby_def)
  have b: "send_error (broken 4) 4 = Some (ExternalError ''closed'')" "send_error (broken 4) 5 = None"
    "insert_error (broken 4) = None" "trace (broken 4) = []"
    by (simp_all add: broken_def)
  note t = member_session_stores_then_broadcasts [where loads = example_loads
      and data = hi_payload and w = calm and pre = "[]" and x = 4 and post = "[5]",
      OF h1 h2 h3 h4]
  note t' = member_session_stores_then_broadcasts [where loads = example_loads
      and data = hi_payload and w = "broken 4" and pre = "[]" and x = 4 and post = "[5]"
      and e = "ExternalError ''closed''", OF h1 h2 h3 h4]
  have p1: "insert_error calm = None \<and> generator (lobby [4, 5]) = Suspended \<and>
      (\<forall>x\<in>set (members (lobby [4, 5]) ''lobby''). send_error calm x = None)"
    by (simp add: g)
  have p2: "insert_error (broken 4) = None \<and> generator (lobby [4, 5]) = Suspended \<and>
      members (lobby [4, 5]) ''lobby'' = [] @ 4 # [5] \<and>
      send_error (broken 4) 4 = Some (ExternalError ''closed'') \<and>
      (\<forall>y\<in>set [5]. send_error (broken 4) y = None)"
    by (simp add: g m b)
  from t have c1: "session_store example_loads 4 ''lobby'' hi_payload (lobby [4, 5], calm) =
      (case insert_error calm of None \<Rightarrow> Inr () | Some e \<Rightarrow> Inl e,
       (lobby [4, 5],
        calm\<lparr>trace := trace calm @ [InsertCalled (JStr ''hi'') (JStr ''A'') (JStr ''lobby'')]\<rparr>))"
    by blast
  from t p1 have c2: "fst (session_iteration example_loads 4 ''lobby'' hi_payload (lobby [4, 5], calm)) = Inr () \<and>
      trace (snd (snd (session_iteration example_loads 4 ''lobby'' hi_payload (lobby [4, 5], calm)))) =
        trace calm @ InsertCalled (JStr ''hi'') (JStr ''A'') (JStr ''lobby'') #
          map (\<lambda>x. Sent x hi_payload) (rev (members (lobby [4, 5]) ''lobby''))"
    by blast
  from t' p2 have c3: "trace (snd (snd (session_iteration example_loads 4 ''lobby'' hi_payload
        (lobby [4, 5], broken 4)))) =
      trace (broken 4) @ InsertCalled (JStr ''hi'') (JStr ''A'') (JStr ''lobby'') #
        map (\<lambda>y. Sent y hi_payload) (rev [5]) @ [SendFailed 4 hi_payload]"
    by blast
  show ?thesis
    using c1 c2 c3 by (simp add: m b)
qed

section \<open>Claims\<close>

text \<open>
  C1, as the specification states it: a broadcast never raises to its caller when
  delivery to a single member fails, and delivery still occurs to every other member.
  Counterexample: room \<open>lobby\<close> holds 1 and 2, the transport of 2 is broken. The loop
  pops 2 first, its \<open>send_text\<close> raises, the exception leaves \<open>_notify\<close> and
  \<open>push\<close>, and 1 receives nothing.
\<close>

theorem push_failing_member_counterexample:
  "fst (push ''hello'' ''lobby'' (lobby [1, 2], broken 2)) = Inl (ExternalError ''closed'') \<and>
   deliveries (trace (snd (snd (push ''hello'' ''lobby'' (lobby [1, 2], broken 2))))) = [] \<and>
   members (fst (snd (push ''hello'' ''lobby'' (lobby [1, 2], broken 2)))) ''lobby'' = [1]"
proof -
  have "members (lobby [1, 2]) ''lobby'' = [1] @ 2 # []"
    by (simp add: lobby_def members_def)
  then have "notify ''hello'' ''lobby'' (lobby [1, 2], broken 2) =
      (Inl (ExternalError ''closed''), (setitem ''lobby'' (Members [1]) (lobby [1, 2]),
        (broken 2)\<lparr>trace := trace (broken 2) @ map (\<lambda>ws. Sent ws ''hello'') (rev [])
           @ [SendFailed 2 ''hello'']\<rparr>))"
    by (rule notify_first_failure) (simp_all add: broken_def)
  moreover have "generator (lobby [1, 2]) = Suspended"
    by (simp add: lobby_def)
  ultimately show ?thesis
    by (simp add: push_suspended members_setitem broken_def)
qed

text \<open>
  C1, amended: on a started generator, a broadcast in which every send succeeds does
  not raise and delivers the message to every current member of the room. When the
  send to a member fails (and the sends to the members behind it in the list
  succeeded), the exception is raised to the caller of \<open>push\<close>, the room's list is
  left holding the members that stood before the failing one, which receive nothing,
  and only the members behind it have received the message.
\<close>

theorem push_failure_propagates:
  assumes "generator n = Suspended"
  shows
  "((\<forall>ws\<in>set (members n r). send_error w ws = None) \<longrightarrow>
      fst (push msg r (n, w)) = Inr () \<and>
      deliveries (trace (snd (snd (push msg r (n, w))))) =
        deliveries (trace w) @ map (\<lambda>ws. (ws, msg)) (rev (members n r))) \<and>
   (members n r = pre @ x # post \<and> send_error w x = Some e \<and>
    (\<forall>ws\<in>set post. send_error w ws = None) \<longrightarrow>
      fst (push msg r (n, w)) = Inl (if e = StopAsyncIteration then RuntimeError else e) \<and>
      members (fst (snd (push msg r (n, w)))) r = pre \<and>
      deliveries (trace (snd (snd (push msg r (n, w))))) =
        deliveries (trace w) @ map (\<lambda>ws. (ws, msg)) (rev post))"
proof (intro conjI impI)
  assume ok: "\<forall>ws\<in>set (members n r). send_error w ws = None"
  note eq = notify_all_ok [OF ok, of msg]
  show "fst (push msg r (n, w)) = Inr ()"
    by (simp add: push_suspended [OF assms] eq)
  show "deliveries (trace (snd (snd (push msg r (n, w))))) =
        deliveries (trace w) @ map (\<lambda>ws. (ws, msg)) (rev (members n r))"
    by (simp add: push_suspended [OF assms] eq)
next
  assume f: "members n r = pre @ x # post \<and> send_error w x = Some e \<and>
    (\<forall>ws\<in>set post. send_error w ws = None)"
  then have eq: "notify msg r (n, w) =
     (Inl e, (setitem r (Members pre) n,
              w\<lparr>trace := trace w @ map (\<lambda>ws. Sent ws msg) (rev post) @ [SendFailed x msg]\<rparr>))"
    by (intro notify_first_failure) simp_all
  show "fst (push msg r (n, w)) = Inl (if e = StopAsyncIteration then RuntimeError else e)"
    by (simp add: push_suspended [OF assms] eq)
  show "members (fst (snd (push msg r (n, w)))) r = pre"
    by (simp add: push_suspended [OF assms] eq members_setitem)
  show "deliveries (trace (snd (snd (push msg r (n, w))))) =
        deliveries (trace w) @ map (\<lambda>ws. (ws, msg)) (rev post)"
    by (simp add: push_suspended [OF assms] eq)
qed

theorem push_failure_propagates_witness:
  "generator (lobby [7, 8, 9]) = Suspended \<and>
   fst (push ''hi'' ''lobby'' (lobby [7, 8, 9], calm)) = Inr () \<and>
   deliveries (trace (snd (snd (push ''hi'' ''lobby'' (lobby [7, 8, 9], calm))))) =
     [(9, ''hi''), (8, ''hi''), (7, ''hi'')] \<and>
   fst (push ''hi'' ''lobby'' (lobby [7, 8, 9], broken 8)) = Inl (ExternalError ''closed'') \<and>
   members (fst (snd (push ''hi'' ''lobby'' (lobby [7, 8, 9], broken 8)))) ''lobby'' = [7] \<and>
   deliveries (trace (snd (snd (push ''hi'' ''lobby'' (lobby [7, 8, 9], broken 8))))) =
     [(9, ''hi'')]"
  using push_failure_propagates [where n = "lobby [7, 8, 9]" and r = "''lobby''" and w = calm
      and msg = "''hi''"]
    push_failure_propagates [where n = "lobby [7, 8, 9]" and r = "''lobby''" and pre = "[7]"
      and x = 8 and post = "[9]" and w = "broken 8" and e = "ExternalError ''closed''"
      and msg = "''hi''"]
  by (simp add: lobby_def calm_def broken_def members_def)

text \<open>
  C2, as the specification states it: with N members of which K fail, one broadcast
  makes exactly N - K successful deliveries and leaves N - K members. Counterexample:
  the list is 1, 2, 3 and the transport of 2 is broken (N = 3, K = 1): one delivery
  (to 3), an exception, and a list of one member (1).
\<close>

theorem notify_failing_member_counterexample:
  "fst (notify ''hello'' ''lobby'' (lobby [1, 2, 3], broken 2)) = Inl (ExternalError ''closed'') \<and>
   deliveries (trace (snd (snd (notify ''hello'' ''lobby'' (lobby [1, 2, 3], broken 2))))) =
     [(3, ''hello'')] \<and>
   members (fst (snd (notify ''hello'' ''lobby'' (lobby [1, 2, 3], broken 2)))) ''lobby'' = [1] \<and>
   length (deliveries (trace (snd (snd (notify ''hello'' ''lobby'' (lobby [1, 2, 3], broken 2))))))
     \<noteq> 3 - 1 \<and>
   length (members (fst (snd (notify ''hello'' ''lobby'' (lobby [1, 2, 3], broken 2)))) ''lobby'')
     \<noteq> 3 - 1"
proof -
  have "members (lobby [1, 2, 3]) ''lobby'' = [1] @ 2 # [3]"
    by (simp add: lobby_def members_def)
  then have "notify ''hello'' ''lobby'' (lobby [1, 2, 3], broken 2) =
      (Inl (ExternalError ''closed''), (setitem ''lobby'' (Members [1]) (lobby [1, 2, 3]),
        (broken 2)\<lparr>trace := trace (broken 2) @ map (\<lambda>ws. Sent ws ''hello'') (rev [3])
           @ [SendFailed 2 ''hello'']\<rparr>))"
    by (rule notify_first_failure) (simp_all add: broken_def)
  then show ?thesis
    by (simp add: members_setitem broken_def)
qed

text \<open>
  C2, amended: when no member's transport fails, one broadcast to a room of N members
  makes exactly N send attempts, all delivered, removes nobody and leaves N members;
  for a room of zero members it succeeds with zero attempts. When a transport fails,
  the broadcast stops with that exception at the first failing member in pop order
  (from the end of the list): it has delivered to each member behind it in the list
  and has attempted nobody before it.
\<close>

theorem notify_delivery_count:
  "((\<forall>ws\<in>set (members n r). send_error w ws = None) \<longrightarrow>
      fst (notify msg r (n, w)) = Inr () \<and>
      attempts (trace (snd (snd (notify msg r (n, w))))) = attempts (trace w) @ rev (members n r) \<and>
      length (deliveries (trace (snd (snd (notify msg r (n, w)))))) =
        length (deliveries (trace w)) + length (members n r) \<and>
      set (members (fst (snd (notify msg r (n, w)))) r) = set (members n r) \<and>
      length (members (fst (snd (notify msg r (n, w)))) r) = length (members n r)) \<and>
   (members n r = pre @ x # post \<and> send_error w x = Some e \<and>
    (\<forall>ws\<in>set post. send_error w ws = None) \<longrightarrow>
      fst (notify msg r (n, w)) = Inl e \<and>
      attempts (trace (snd (snd (notify msg r (n, w))))) = attempts (trace w) @ rev post @ [x] \<and>
      deliveries (trace (snd (snd (notify msg r (n, w))))) =
        deliveries (trace w) @ map (\<lambda>ws. (ws, msg)) (rev post))"
proof (intro conjI impI)
  assume ok: "\<forall>ws\<in>set (members n r). send_error w ws = None"
  note eq = notify_all_ok [OF ok, of msg]
  show "fst (notify msg r (n, w)) = Inr ()" by (simp add: eq)
  show "attempts (trace (snd (snd (notify msg r (n, w))))) = attempts (trace w) @ rev (members n r)"
    by (simp add: eq)
  show "length (deliveries (trace (snd (snd (notify msg r (n, w)))))) =
        length (deliveries (trace w)) + length (members n r)"
    by (simp add: eq)
  show "set (members (fst (snd (notify msg r (n, w)))) r) = set (members n r)"
    by (simp add: eq members_setitem)
  show "length (members (fst (snd (notify msg r (n, w)))) r) = length (members n r)"
    by (simp add: eq members_setitem)
next
  assume f: "members n r = pre @ x # post \<and> send_error w x = Some e \<and>
    (\<forall>ws\<in>set post. send_error w ws = None)"
  then have eq: "notify msg r (n, w) =
     (Inl e, (setitem r (Members pre) n,
              w\<lparr>trace := trace w @ map (\<lambda>ws. Sent ws msg) (rev post) @ [SendFailed x msg]\<rparr>))"
    by (intro notify_first_failure) simp_all
  show "fst (notify msg r (n, w)) = Inl e" by (simp add: eq)
  show "attempts (trace (snd (snd (notify msg r (n, w))))) = attempts (trace w) @ rev post @ [x]"
    by (simp add: eq)
  show "deliveries (trace (snd (snd (notify msg r (n, w))))) =
        deliveries (trace w) @ map (\<lambda>ws. (ws, msg)) (rev post)"
    by (simp add: eq)
qed

theorem notify_delivery_count_witness:
  "fst (notify ''hello'' ''lobby'' (lobby [1, 2], calm)) = Inr () \<and>
   attempts (trace (snd (snd (notify ''hello'' ''lobby'' (lobby [1, 2], calm))))) = [2, 1] \<and>
   length (members (fst (snd (notify ''hello'' ''lobby'' (lobby [1, 2], calm)))) ''lobby'') = 2 \<and>
   fst (notify ''hello'' ''empty'' (started, calm)) = Inr () \<and>
   attempts (trace (snd (snd (notify ''hello'' ''empty'' (started, calm))))) = [] \<and>
   fst (notify ''hello'' ''lobby'' (lobby [4, 5, 6], broken 5)) = Inl (ExternalError ''closed'') \<and>
   attempts (trace (snd (snd (notify ''hello'' ''lobby'' (lobby [4, 5, 6], broken 5))))) = [6, 5] \<and>
   deliveries (trace (snd (snd (notify ''hello'' ''lobby'' (lobby [4, 5, 6], broken 5))))) =
     [(6, ''hello'')]"
  using notify_delivery_count [of "lobby [1, 2]" "''lobby''" calm "''hello''"]
    notify_delivery_count [of started "''empty''" calm "''hello''"]
    notify_delivery_count [where n = "lobby [4, 5, 6]" and r = "''lobby''" and pre = "[4]"
      and x = 5 and post = "[6]" and w = "broken 5" and e = "ExternalError ''closed''"
      and msg = "''hello''"]
  by (simp add: lobby_def calm_def broken_def started_def members_def)

text \<open>
  C3, as the specification states it: joining a connection that is already a member of
  the room is a no-op, not an error. Counterexample: the second \<open>connect\<close> of a
  websocket raises RuntimeError, because \<open>connect\<close> awaits \<open>accept\<close> first and
  the handshake of that websocket is done already.
\<close>

theorem connect_again_counterexample:
  "fst (connect 10 ''r'' (started, calm)) = Inr () \<and>
   members (fst (snd (connect 10 ''r'' (started, calm)))) ''r'' = [10] \<and>
   fst (connect 10 ''r'' (snd (connect 10 ''r'' (started, calm)))) = Inl RuntimeError"
  by (simp add: connect_eq started_def calm_def members_def)

text \<open>
  C3, amended: joining a connection whose handshake is done raises RuntimeError from
  \<open>accept\<close> and leaves registry and environment exactly as they were. A first join
  appends the websocket at the end of the room's list, and joining it again raises and
  changes nothing, so joining twice leaves the list that joining once left. From a
  registry without entries, in every schedule (also with broadcasts cut at their
  awaits), no room's list ever holds a websocket twice, and joining any member of any
  room again raises RuntimeError and changes nothing.
\<close>

theorem connect_member_raises:
  "(ws \<in> accepted w \<longrightarrow> connect ws r (n, w) = (Inl RuntimeError, (n, w))) \<and>
   (ws \<notin> accepted w \<and> accept_error w ws = None \<longrightarrow>
      fst (connect ws r (n, w)) = Inr () \<and>
      members (fst (snd (connect ws r (n, w)))) r = members n r @ [ws] \<and>
      connect ws r (snd (connect ws r (n, w))) = (Inl RuntimeError, snd (connect ws r (n, w)))) \<and>
   (connections n0 = Map.empty \<longrightarrow>
      (\<forall>r1. distinct (members (fst (snd (run_schedule sts (None, (n0, w0))))) r1)) \<and>
      (\<forall>x r1 r2. x \<in> set (members (fst (snd (run_schedule sts (None, (n0, w0))))) r1) \<longrightarrow>
         connect x r2 (snd (run_schedule sts (None, (n0, w0)))) =
           (Inl RuntimeError, snd (run_schedule sts (None, (n0, w0))))))"
proof (intro conjI impI allI)
  assume "ws \<in> accepted w"
  then show "connect ws r (n, w) = (Inl RuntimeError, (n, w))"
    by (simp add: connect_eq)
next
  assume a: "ws \<notin> accepted w \<and> accept_error w ws = None"
  then show "fst (connect ws r (n, w)) = Inr ()"
    by (simp add: connect_eq)
  from a show "members (fst (snd (connect ws r (n, w)))) r = members n r @ [ws]"
    by (simp add: connect_eq members_setitem)
  from a show "connect ws r (snd (connect ws r (n, w))) = (Inl RuntimeError, snd (connect ws r (n, w)))"
    by (simp add: connect_eq)
next
  fix r1
  assume "connections n0 = Map.empty"
  then have "sound (run_schedule sts (None, (n0, w0)))"
    by (intro sound_run_schedule sound_initial)
  then show "distinct (members (fst (snd (run_schedule sts (None, (n0, w0))))) r1)"
    by (cases "run_schedule sts (None, (n0, w0))") (auto dest: sound_members)
next
  fix x r1 r2
  assume "connections n0 = Map.empty"
    and x: "x \<in> set (members (fst (snd (run_schedule sts (None, (n0, w0))))) r1)"
  then have s: "sound (run_schedule sts (None, (n0, w0)))"
    by (intro sound_run_schedule sound_initial)
  obtain f n1 w1 where c: "run_schedule sts (None, (n0, w0)) = (f, (n1, w1))"
    by (cases "run_schedule sts (None, (n0, w0))") auto
  have "x \<in> accepted w1"
    using s x sound_members [of f n1 w1 r1] by (auto simp: c)
  then show "connect x r2 (snd (run_schedule sts (None, (n0, w0)))) =
           (Inl RuntimeError, snd (run_schedule sts (None, (n0, w0))))"
    by (simp add: c connect_eq)
qed

theorem connect_member_raises_witness:
  "connect 4 ''lobby'' (lobby [4, 5], calm) = (Inl RuntimeError, (lobby [4, 5], calm)) \<and>
   fst (connect 10 ''lobby'' (lobby [4, 5], calm)) = Inr () \<and>
   members (fst (snd (connect 10 ''lobby'' (lobby [4, 5], calm)))) ''lobby'' = [4, 5, 10] \<and>
   connect 10 ''lobby'' (snd (connect 10 ''lobby'' (lobby [4, 5], calm))) =
     (Inl RuntimeError, snd (connect 10 ''lobby'' (lobby [4, 5], calm))) \<and>
   members (fst (snd (run_schedule [Whole (Join 10 ''lobby''), Whole (Join 11 ''lobby''),
        Whole (Join 10 ''lobby'')] (None, (started, calm))))) ''lobby'' = [10, 11] \<and>
   connect 11 ''hall'' (snd (run_schedule [Whole (Join 10 ''lobby''), Whole (Join 11 ''lobby''),
        Whole (Join 10 ''lobby'')] (None, (started, calm)))) =
     (Inl RuntimeError, snd (run_schedule [Whole (Join 10 ''lobby''), Whole (Join 11 ''lobby''),
        Whole (Join 10 ''lobby'')] (None, (started, calm))))"
proof -
  let ?c = "run_schedule [Whole (Join 10 ''lobby''), Whole (Join 11 ''lobby''),
        Whole (Join 10 ''lobby'')] (None, (started, calm))"
  have h1: "4 \<in> accepted calm" by (simp add: calm_def)
  have h2: "10 \<notin> accepted calm \<and> accept_error calm 10 = None" by (simp add: calm_def)
  have h3: "connections started = Map.empty" by (simp add: started_def)
  have m0: "members (lobby [4, 5]) ''lobby'' = [4, 5]" by (simp add: lobby_def members_def)
  have m: "members (fst (snd ?c)) ''lobby'' = [10, 11]"
    by (simp add: connect_eq started_def calm_def members_def)
  note t1 = connect_member_raises [where ws = 4 and w = calm and r = "''lobby''"
      and n = "lobby [4, 5]" and ?n0.0 = started and ?w0.0 = calm and sts = "[]"]
  note t2 = connect_member_raises [where ws = 10 and w = calm and r = "''lobby''"
      and n = "lobby [4, 5]" and ?n0.0 = started and ?w0.0 = calm
      and sts = "[Whole (Join 10 ''lobby''), Whole (Join 11 ''lobby''), Whole (Join 10 ''lobby'')]"]
  show ?thesis
  proof (intro conjI)
    show "connect 4 ''lobby'' (lobby [4, 5], calm) = (Inl RuntimeError, (lobby [4, 5], calm))"
      using t1 h1 by blast
    show "fst (connect 10 ''lobby'' (lobby [4, 5], calm)) = Inr ()"
      using t2 h2 by blast
    show "members (fst (snd (connect 10 ''lobby'' (lobby [4, 5], calm)))) ''lobby'' = [4, 5, 10]"
      using t2 h2 m0 by simp
    show "connect 10 ''lobby'' (snd (connect 10 ''lobby'' (lobby [4, 5], calm))) =
     (Inl RuntimeError, snd (connect 10 ''lobby'' (lobby [4, 5], calm)))"
      using t2 h2 by blast
    show "members (fst (snd ?c)) ''lobby'' = [10, 11]" by (rule m)
    have "11 \<in> set (members (fst (snd ?c)) ''lobby'')" unfolding m by simp
    then show "connect 11 ''hall'' (snd ?c) = (Inl RuntimeError, snd ?c)"
      using t2 h3 by blast
  qed
qed

text \<open>
  C4, as the specification states it: \<open>remove\<close> of a connection that is not in the
  room's list is a no-op and raises nothing, also for a room never joined.
  Counterexample: for a room without an entry the lookup yields the empty dict, which
  has no \<open>remove\<close> (AttributeError); for a list without the websocket
  \<open>list.remove\<close> raises ValueError.
\<close>

theorem remove_absent_counterexample:
  "fst (remove 1 ''never'' started) = Inl AttributeError \<and>
   fst (remove 3 ''lobby'' (lobby [1, 2])) = Inl ValueError"
  by (simp add: remove_eq started_def lobby_def members_def)

text \<open>
  C4, amended: \<open>remove\<close> of a connection that is in the room's list deletes its
  first occurrence and raises nothing. For a connection that is not in the list it
  raises: ValueError when the room's entry is a list, AttributeError when the entry is
  the empty dict of the default factory (the case of a room never joined). After the
  failed call every room has the members it had before.
\<close>

theorem remove_present_or_raises:
  "(ws \<in> set (members n r) \<longrightarrow>
      remove ws r n = (Inr (), setitem r (Members (remove1 ws (members n r))) n)) \<and>
   (ws \<notin> set (members n r) \<longrightarrow>
      fst (remove ws r n) =
        Inl (case connections n r of Some (Members xs) \<Rightarrow> ValueError | _ \<Rightarrow> AttributeError) \<and>
      (\<forall>r'. members (snd (remove ws r n)) r' = members n r'))"
  by (simp add: remove_eq)

theorem remove_present_or_raises_witness:
  "remove 1 ''lobby'' (lobby [1, 2, 1]) = (Inr (), setitem ''lobby'' (Members [2, 1]) (lobby [1, 2, 1])) \<and>
   fst (remove 3 ''lobby'' (lobby [1, 2, 1])) = Inl ValueError \<and>
   fst (remove 3 ''other'' (lobby [1, 2, 1])) = Inl AttributeError \<and>
   members (snd (remove 3 ''other'' (lobby [1, 2, 1]))) ''lobby'' = [1, 2, 1]"
  using remove_present_or_raises [of 1 "lobby [1, 2, 1]" "''lobby''"]
    remove_present_or_raises [of 3 "lobby [1, 2, 1]" "''lobby''"]
    remove_present_or_raises [of 3 "lobby [1, 2, 1]" "''other''"]
  by (simp add: lobby_def members_def)

text \<open>
  C5. For a room name that has never been joined, \<open>get_members\<close> returns an empty
  container and never \<open>None\<close> or an exception: after any history of operations
  from a registry without entries in which nobody joined room \<open>r\<close>, the value is
  the default factory's empty dict or an empty list, of length 0 and with no members.
\<close>

theorem get_members_never_joined:
  assumes "connections n0 = Map.empty" and "\<forall>a\<in>set acts. \<forall>ws. a \<noteq> Join ws r"
  shows "\<exists>e. fst (get_members r (fst (run acts (n0, w)))) = Some e \<and>
              entry_len e = 0 \<and> entry_members e = []"
proof -
  have "members (fst (n0, w)) r = []"
    using assms(1) by (simp add: members_def)
  then have "members (fst (run acts (n0, w))) r = []"
    using assms(2) by (rule run_keeps_empty)
  then show ?thesis
    by (simp add: get_members_eq entry_len_members)
qed

theorem get_members_never_joined_witness:
  "connections started = Map.empty \<and>
   (\<exists>e. fst (get_members ''hall''
            (fst (run [Join 10 ''lobby'', Leave 10 ''hall'', Broadcast ''x'' ''hall'', Query ''hall'']
                   (started, calm)))) = Some e \<and>
        entry_len e = 0 \<and> entry_members e = [])"
proof -
  have h1: "connections started = Map.empty" by (simp add: started_def)
  have h2: "\<forall>a\<in>set [Join 10 ''lobby'', Leave 10 ''hall'', Broadcast ''x'' ''hall'', Query ''hall''].
              \<forall>ws. a \<noteq> Join ws ''hall''"
    by simp
  show ?thesis
    using get_members_never_joined [OF h1 h2, of calm] h1 by simp
qed

text \<open>
  C6. After a session's transport disconnects, its connection should be absent from
  its room and receive no further broadcast. The code misses the case that its own
  comment in \<open>_notify\<close> names, a disconnection handled during
  \<open>await websocket.send_text(message)\<close>: in the history \<open>race\<close> the broadcast has
  moved 11 to \<open>living_connections\<close> and is suspended in the send to 10 when the
  session of 11 gets its disconnect. The handler's \<open>remove\<close> finds 11 nowhere in the
  list and raises ValueError; the broadcast then ends and stores
  \<open>living_connections\<close>, so 11 is a member of the lobby after its disconnect, and the
  next broadcast attempts a send to it.
\<close>

theorem disconnect_during_broadcast:
  "fst (session_loop example_loads 11 ''lobby'' [ReceiveRaises WebSocketDisconnect]
         (snd (run_schedule (take 4 race) (None, (started, calm))))) = Raised ValueError \<and>
   fst (run_schedule race (None, (started, calm))) = None \<and>
   members (fst (snd (run_schedule race (None, (started, calm))))) ''lobby'' = [11, 10] \<and>
   attempts (trace (snd (snd (push ''y'' ''lobby''
     (snd (run_schedule race (None, (started, calm)))))))) =
   attempts (trace (snd (snd (run_schedule race (None, (started, calm)))))) @ [10, 11]"
proof (intro conjI)
  show "fst (session_loop example_loads 11 ''lobby'' [ReceiveRaises WebSocketDisconnect]
         (snd (run_schedule (take 4 race) (None, (started, calm))))) = Raised ValueError"
    by (simp add: race_before_disconnect on_exception_def remove_eq members_setitem)
  show "fst (run_schedule race (None, (started, calm))) = None"
    by (simp add: race_after)
  show "members (fst (snd (run_schedule race (None, (started, calm))))) ''lobby'' = [11, 10]"
    by (simp add: race_after members_setitem)
  show "attempts (trace (snd (snd (push ''y'' ''lobby''
     (snd (run_schedule race (None, (started, calm)))))))) =
   attempts (trace (snd (snd (run_schedule race (None, (started, calm)))))) @ [10, 11]"
    by (simp add: race_after push_suspended notify_def notify_loop_unfold members_setitem)
qed

text \<open>
  C7. For every inbound payload with a message and a sender field, the loop should
  call \<open>insert_message\<close> with them and the room and then broadcast the payload
  verbatim. For a session whose websocket is in the room's list it does
  (\<open>member_session_stores_then_broadcasts\<close>). It does not for a live session whose
  websocket has dropped out of the list: after the history \<open>dropped\<close> the payload of
  11 parses to an object with both fields, but the re-join of lines 193 to 196 raises
  RuntimeError before line 198 is reached, so \<open>insert_message\<close> is never called and
  nothing is sent.
\<close>

theorem absent_session_stores_nothing:
  "example_loads hi_payload = Some (JObj [(''message'', JStr ''hi''), (''sender'', JStr ''A'')]) \<and>
   fst (session_store example_loads 11 ''lobby'' hi_payload (run dropped (started, calm))) =
     Inl RuntimeError \<and>
   InsertCalled (JStr ''hi'') (JStr ''A'') (JStr ''lobby'') \<notin>
     set (trace (snd (snd (session_iteration example_loads 11 ''lobby'' hi_payload
       (run dropped (started, calm))))))"
proof -
  have rj: "rejoin_if_absent 11 ''lobby'' (run dropped (started, calm)) =
      (Inl RuntimeError, (fst (run dropped (started, calm)), snd (run dropped (started, calm))))"
    by (simp add: dropped_after rejoin_if_absent_cases members_setitem getitem_def)
  have st: "session_store example_loads 11 ''lobby'' hi_payload (run dropped (started, calm)) =
      (Inl RuntimeError, run dropped (started, calm))"
    by (simp add: session_store_object [of example_loads hi_payload _ 11 "''lobby''"] rj)
  have it: "session_iteration example_loads 11 ''lobby'' hi_payload (run dropped (started, calm)) =
      (Inl RuntimeError, run dropped (started, calm))"
    by (simp add: session_iteration_eq st)
  show ?thesis
    by (simp add: st it) (simp add: dropped_after)
qed

text \<open>
  C8. An iteration that does not find its websocket in the room's list should re-join
  it, so that it is a member when the broadcast is performed. The code attempts this
  with \<open>notifier.connect\<close>, but \<open>connect\<close> starts with a second \<open>accept\<close> on the
  websocket that line 184 accepted, which raises RuntimeError: after the history
  \<open>dropped\<close> the session of 11 is alive and 11 is not in the lobby's list; its next
  iteration raises RuntimeError in the re-join, 11 is still not a member, nothing is
  stored or sent, and the exception ends the session.
\<close>

theorem rejoin_raises:
  "11 \<in> accepted (snd (run dropped (started, calm))) \<and>
   11 \<notin> set (members (fst (run dropped (started, calm))) ''lobby'') \<and>
   fst (rejoin_if_absent 11 ''lobby'' (run dropped (started, calm))) = Inl RuntimeError \<and>
   fst (session_iteration example_loads 11 ''lobby'' hi_payload (run dropped (started, calm))) =
     Inl RuntimeError \<and>
   11 \<notin> set (members (fst (snd (session_iteration example_loads 11 ''lobby'' hi_payload
     (run dropped (started, calm))))) ''lobby'') \<and>
   trace (snd (snd (session_iteration example_loads 11 ''lobby'' hi_payload
     (run dropped (started, calm))))) = trace (snd (run dropped (started, calm))) \<and>
   fst (session_loop example_loads 11 ''lobby'' [Text hi_payload] (run dropped (started, calm))) =
     Raised RuntimeError"
proof -
  have rj: "rejoin_if_absent 11 ''lobby'' (run dropped (started, calm)) =
      (Inl RuntimeError, (fst (run dropped (started, calm)), snd (run dropped (started, calm))))"
    by (simp add: dropped_after rejoin_if_absent_cases members_setitem getitem_def)
  have st: "session_store example_loads 11 ''lobby'' hi_payload (run dropped (started, calm)) =
      (Inl RuntimeError, run dropped (started, calm))"
    by (simp add: session_store_object [of example_loads hi_payload _ 11 "''lobby''"] rj)
  have it: "session_iteration example_loads 11 ''lobby'' hi_payload (run dropped (started, calm)) =
      (Inl RuntimeError, run dropped (started, calm))"
    by (simp add: session_iteration_eq st)
  show ?thesis
  proof (intro conjI)
    show "11 \<in> accepted (snd (run dropped (started, calm)))"
      by (simp add: dropped_after)
    show "11 \<notin> set (members (fst (run dropped (started, calm))) ''lobby'')"
      by (simp add: dropped_after members_setitem)
    show "fst (rejoin_if_absent 11 ''lobby'' (run dropped (started, calm))) = Inl RuntimeError"
      by (simp add: rj)
    show "fst (session_iteration example_loads 11 ''lobby'' hi_payload (run dropped (started, calm))) =
     Inl RuntimeError"
      by (simp add: it)
    show "11 \<notin> set (members (fst (snd (session_iteration example_loads 11 ''lobby'' hi_payload
     (run dropped (started, calm))))) ''lobby'')"
      by (simp add: it) (simp add: dropped_after members_setitem)
    show "trace (snd (snd (session_iteration example_loads 11 ''lobby'' hi_payload
     (run dropped (started, calm))))) = trace (snd (run dropped (started, calm)))"
      by (simp add: it)
    show "fst (session_loop example_loads 11 ''lobby'' [Text hi_payload] (run dropped (started, calm))) =
     Raised RuntimeError"
      by (simp add: it on_exception_def)
  qed
qed

text \<open>
  C9. \<open>get_members\<close> on a room name without an entry is not read-only: it returns
  the default factory's empty dict and stores it as the room's entry, so the registry
  differs from before; the entries of all other rooms and the generator are unchanged.
\<close>

theorem get_members_creates_entry:
  assumes "connections n r = None"
  shows "fst (get_members r n) = Some EmptyDict \<and>
         connections (snd (get_members r n)) r = Some EmptyDict \<and>
         snd (get_members r n) \<noteq> n \<and>
         (\<forall>r'. r' \<noteq> r \<longrightarrow> connections (snd (get_members r n)) r' = connections n r') \<and>
         generator (snd (get_members r n)) = generator n"
proof -
  have eq: "get_members r n = (Some EmptyDict, n\<lparr>connections := (connections n)(r \<mapsto> EmptyDict)\<rparr>)"
    using assms by (simp add: get_members_eq getitem_def)
  have "connections (n\<lparr>connections := (connections n)(r \<mapsto> EmptyDict)\<rparr>) r \<noteq> connections n r"
    using assms by simp
  then have "n\<lparr>connections := (connections n)(r \<mapsto> EmptyDict)\<rparr> \<noteq> n"
    by metis
  then show ?thesis by (simp add: eq)
qed

theorem get_members_creates_entry_witness:
  "connections (lobby [1]) ''hall'' = None \<and>
   fst (get_members ''hall'' (lobby [1])) = Some EmptyDict \<and>
   connections (snd (get_members ''hall'' (lobby [1]))) ''hall'' = Some EmptyDict \<and>
   snd (get_members ''hall'' (lobby [1])) \<noteq> lobby [1] \<and>
   connections (snd (get_members ''hall'' (lobby [1]))) ''lobby'' = Some (Members [1])"
  using get_members_creates_entry [of "lobby [1]" "''hall''"]
  by (simp add: lobby_def)

text \<open>
  C10. A broadcast in which every delivery succeeds delivers the message to the members
  in reverse order of the stored list (the loop pops from the end), and leaves the
  room's list with the same elements in reversed order.
\<close>

theorem notify_reverses_members:
  assumes "\<forall>ws\<in>set (members n r). send_error w ws = None"
  shows "fst (notify msg r (n, w)) = Inr () \<and>
         deliveries (trace (snd (snd (notify msg r (n, w))))) =
           deliveries (trace w) @ map (\<lambda>ws. (ws, msg)) (rev (members n r)) \<and>
         members (fst (snd (notify msg r (n, w)))) r = rev (members n r)"
  by (simp add: notify_all_ok [OF assms] members_setitem)

theorem notify_reverses_members_witness:
  "fst (notify ''hello'' ''lobby'' (lobby [1, 2, 3], calm)) = Inr () \<and>
   deliveries (trace (snd (snd (notify ''hello'' ''lobby'' (lobby [1, 2, 3], calm))))) =
     [(3, ''hello''), (2, ''hello''), (1, ''hello'')] \<and>
   members (fst (snd (notify ''hello'' ''lobby'' (lobby [1, 2, 3], calm)))) ''lobby'' = [3, 2, 1]"
  using notify_reverses_members [of "lobby [1, 2, 3]" "''lobby''" calm "''hello''"]
  by (simp add: lobby_def calm_def members_def)

end
